theory Spec2Isabelle
  imports Complex_Main "HOL-Library.Word"
begin

section \<open>Numbers, bytes and typed arrays\<close>

text \<open>
  The image processor of the colour separator (\<^verbatim>\<open>src/types.ts\<close>, second part:
  \<^verbatim>\<open>services/imageProcessor\<close>) works on the RGBA bytes of a canvas with JavaScript
  numbers. A JavaScript number is modelled as a real number, one of the two infinities,
  or NaN. The finite values are IEEE 754 doubles: every arithmetic operation rounds its
  exact result to the nearest number with a significand of 53 bits, a tie going to the
  even significand (\<open>fl\<close> below). The exponent is not bounded, so that overflow to an
  infinity and gradual underflow are not modelled, and neither is the sign of zero
  (every zero is \<open>+0\<close>). \<^verbatim>\<open>Math.sqrt\<close> and \<^verbatim>\<open>Math.pow\<close> are taken as correctly
  rounded. The value \<^verbatim>\<open>undefined\<close>, which a read beyond the end of a typed array
  gives, is modelled by NaN, which is what it becomes in every arithmetic operation,
  comparison and typed-array store of this code.
\<close>

text \<open>The nearest integer, a tie going to the even one.\<close>

definition roundHalfEven :: "real \<Rightarrow> int" where
  "roundHalfEven x =
     (let f = \<lfloor>x\<rfloor> in
      if of_int f + 1 / 2 < x then f + 1
      else if x < of_int f + 1 / 2 then f
      else if even f then f else f + 1)"

text \<open>
  The unit in the last place of a number \<open>x \<noteq> 0\<close> with
  \<open>2 powr e \<le> \<bar>x\<bar>\<close> and \<open>\<bar>x\<bar> < 2 powr (e + 1)\<close> is \<open>2 powr (e - 52)\<close>, and \<open>fl x\<close> is
  the multiple of it nearest to \<open>x\<close>, a tie going to the even multiple. A decimal
  literal of the code that is not a double, such as \<^verbatim>\<open>0.299\<close>, denotes \<open>fl\<close> of its
  value.
\<close>

definition ulp :: "real \<Rightarrow> real" where
  "ulp x = 2 powr (of_int \<lfloor>log 2 \<bar>x\<bar>\<rfloor> - 52)"

definition fl :: "real \<Rightarrow> real" where
  "fl x = (if x = 0 then 0 else of_int (roundHalfEven (x / ulp x)) * ulp x)"

datatype jsnum = Fin real | PInf | NInf | NaN

type_synonym byte = "8 word"

instantiation jsnum :: "{plus, minus, uminus, times, inverse, ord}"
begin

fun uminus_jsnum :: "jsnum \<Rightarrow> jsnum" where
  "uminus_jsnum (Fin a) = Fin (- a)"
| "uminus_jsnum PInf = NInf"
| "uminus_jsnum NInf = PInf"
| "uminus_jsnum NaN = NaN"

fun plus_jsnum :: "jsnum \<Rightarrow> jsnum \<Rightarrow> jsnum" where
  "plus_jsnum NaN y = NaN"
| "plus_jsnum x NaN = NaN"
| "plus_jsnum (Fin a) (Fin b) = Fin (fl (a + b))"
| "plus_jsnum PInf NInf = NaN"
| "plus_jsnum NInf PInf = NaN"
| "plus_jsnum PInf y = PInf"
| "plus_jsnum NInf y = NInf"
| "plus_jsnum (Fin a) y = y"

definition minus_jsnum :: "jsnum \<Rightarrow> jsnum \<Rightarrow> jsnum" where
  "minus_jsnum x y = x + (- y)"

fun times_jsnum :: "jsnum \<Rightarrow> jsnum \<Rightarrow> jsnum" where
  "times_jsnum NaN y = NaN"
| "times_jsnum x NaN = NaN"
| "times_jsnum (Fin a) (Fin b) = Fin (fl (a * b))"
| "times_jsnum (Fin a) PInf = (if a = 0 then NaN else if 0 < a then PInf else NInf)"
| "times_jsnum (Fin a) NInf = (if a = 0 then NaN else if 0 < a then NInf else PInf)"
| "times_jsnum PInf (Fin b) = (if b = 0 then NaN else if 0 < b then PInf else NInf)"
| "times_jsnum NInf (Fin b) = (if b = 0 then NaN else if 0 < b then NInf else PInf)"
| "times_jsnum PInf PInf = PInf"
| "times_jsnum PInf NInf = NInf"
| "times_jsnum NInf PInf = NInf"
| "times_jsnum NInf NInf = PInf"

fun divide_jsnum :: "jsnum \<Rightarrow> jsnum \<Rightarrow> jsnum" where
  "divide_jsnum NaN y = NaN"
| "divide_jsnum x NaN = NaN"
| "divide_jsnum (Fin a) (Fin b) =
     (if b = 0 then (if a = 0 then NaN else if 0 < a then PInf else NInf) else Fin (fl (a / b)))"
| "divide_jsnum (Fin a) y = Fin 0"
| "divide_jsnum PInf (Fin b) = (if 0 \<le> b then PInf else NInf)"
| "divide_jsnum NInf (Fin b) = (if 0 \<le> b then NInf else PInf)"
| "divide_jsnum x y = NaN"

definition inverse_jsnum :: "jsnum \<Rightarrow> jsnum" where
  "inverse_jsnum x = divide (Fin 1) x"

fun less_eq_jsnum :: "jsnum \<Rightarrow> jsnum \<Rightarrow> bool" where
  "less_eq_jsnum NaN y = False"
| "less_eq_jsnum x NaN = False"
| "less_eq_jsnum (Fin a) (Fin b) = (a \<le> b)"
| "less_eq_jsnum NInf y = True"
| "less_eq_jsnum x PInf = True"
| "less_eq_jsnum x y = False"

fun less_jsnum :: "jsnum \<Rightarrow> jsnum \<Rightarrow> bool" where
  "less_jsnum NaN y = False"
| "less_jsnum x NaN = False"
| "less_jsnum (Fin a) (Fin b) = (a < b)"
| "less_jsnum PInf y = False"
| "less_jsnum x NInf = False"
| "less_jsnum x y = True"

instance ..

end

text \<open>\<^verbatim>\<open>Math.max\<close> and \<^verbatim>\<open>Math.min\<close> of two numbers: NaN when either is NaN.\<close>

definition Math_max :: "jsnum \<Rightarrow> jsnum \<Rightarrow> jsnum" where
  "Math_max x y = (if x = NaN \<or> y = NaN then NaN else if x < y then y else x)"

definition Math_min :: "jsnum \<Rightarrow> jsnum \<Rightarrow> jsnum" where
  "Math_min x y = (if x = NaN \<or> y = NaN then NaN else if y < x then y else x)"

text \<open>\<^verbatim>\<open>Math.sqrt\<close>.\<close>

fun Math_sqrt :: "jsnum \<Rightarrow> jsnum" where
  "Math_sqrt (Fin a) = (if a < 0 then NaN else Fin (fl (sqrt a)))"
| "Math_sqrt PInf = PInf"
| "Math_sqrt NInf = NaN"
| "Math_sqrt NaN = NaN"

text \<open>
  \<^verbatim>\<open>Math.pow\<close>. An exponent that is a whole number is an iterated product or its
  inverse; any other power of a positive base is \<open>powr\<close>; a negative base with a
  fractional exponent gives NaN; a finite result is rounded. The cases with an infinite
  base or exponent follow ECMAScript's \<^verbatim>\<open>Number::exponentiate\<close>.
\<close>

definition is_whole :: "real \<Rightarrow> bool" where
  "is_whole y = (y = of_int \<lfloor>y\<rfloor>)"

definition is_odd_whole :: "real \<Rightarrow> bool" where
  "is_odd_whole y = (is_whole y \<and> odd \<lfloor>y\<rfloor>)"

fun Math_pow :: "jsnum \<Rightarrow> jsnum \<Rightarrow> jsnum" where
  "Math_pow x NaN = NaN"
| "Math_pow x (Fin b) =
     (if b = 0 then Fin 1
      else case x of
        NaN \<Rightarrow> NaN
      | PInf \<Rightarrow> (if 0 < b then PInf else Fin 0)
      | NInf \<Rightarrow> (if 0 < b then (if is_odd_whole b then NInf else PInf) else Fin 0)
      | Fin a \<Rightarrow>
          (if a = 0 then (if 0 < b then Fin 0 else PInf)
           else if is_whole b then
             (if 0 < b then Fin (fl (a ^ nat \<lfloor>b\<rfloor>))
              else Fin (fl (1 / a ^ nat (- \<lfloor>b\<rfloor>))))
           else if 0 < a then Fin (fl (a powr b))
           else NaN))"
| "Math_pow x PInf =
     (case x of
        NaN \<Rightarrow> NaN
      | PInf \<Rightarrow> PInf
      | NInf \<Rightarrow> PInf
      | Fin a \<Rightarrow> (if 1 < \<bar>a\<bar> then PInf else if \<bar>a\<bar> = 1 then NaN else Fin 0))"
| "Math_pow x NInf =
     (case x of
        NaN \<Rightarrow> NaN
      | PInf \<Rightarrow> Fin 0
      | NInf \<Rightarrow> Fin 0
      | Fin a \<Rightarrow> (if 1 < \<bar>a\<bar> then Fin 0 else if \<bar>a\<bar> = 1 then NaN else PInf))"

declare Math_pow.simps [simp del]

text \<open>
  A store into a \<^verbatim>\<open>Uint8ClampedArray\<close> converts the number with ECMAScript's
  \<^verbatim>\<open>ToUint8Clamp\<close>: NaN becomes 0, the value is clamped to 0..255 and rounded to the
  nearest integer, a tie going to the even one (\<open>roundHalfEven\<close>).
\<close>

fun ToUint8Clamp :: "jsnum \<Rightarrow> byte" where
  "ToUint8Clamp NaN = 0"
| "ToUint8Clamp NInf = 0"
| "ToUint8Clamp PInf = 255"
| "ToUint8Clamp (Fin x) =
     (if x \<le> 0 then 0 else if 255 \<le> x then 255 else word_of_int (roundHalfEven x))"

text \<open>
  A read \<^verbatim>\<open>data[i]\<close> from a typed array: the byte as a number, or \<^verbatim>\<open>undefined\<close>
  (here NaN) beyond the end. A store beyond the end is ignored, as \<open>list_update\<close> does.
\<close>

definition num :: "byte \<Rightarrow> jsnum" where
  "num w = Fin (real (unat w))"

definition rd :: "byte list \<Rightarrow> nat \<Rightarrow> jsnum" where
  "rd d i = (if i < length d then num (d ! i) else NaN)"

section \<open>Settings\<close>

datatype BgRemoveMode = White | Black | Custom | Auto

record ImageAdjustments =
  brightness :: real
  contrast :: real
  gamma :: real
  removeBg :: bool
  bgRemoveMode :: BgRemoveMode
  customBgColor :: string
  bgThreshold :: real

section \<open>Hex colours\<close>

text \<open>
  \<^verbatim>\<open>parseInt(s, 16)\<close>: leading white space, a sign and a \<^verbatim>\<open>0x\<close> prefix are
  skipped, the longest run of hexadecimal digits is read, and the result is NaN when
  that run is empty, and the double of the value read otherwise. A \<open>char\<close> stands for
  a code unit below 256.
\<close>

definition isWhiteSpace :: "char \<Rightarrow> bool" where
  "isWhiteSpace c = (of_char c \<in> {9, 10, 11, 12, 13, 32, 160 :: nat})"

definition hexDigitValue :: "char \<Rightarrow> nat option" where
  "hexDigitValue c =
     (let n = (of_char c :: nat) in
      if 48 \<le> n \<and> n \<le> 57 then Some (n - 48)
      else if 97 \<le> n \<and> n \<le> 102 then Some (n - 87)
      else if 65 \<le> n \<and> n \<le> 70 then Some (n - 55)
      else None)"

definition hexValue :: "string \<Rightarrow> nat" where
  "hexValue ds = foldl (\<lambda>acc c. 16 * acc + the (hexDigitValue c)) 0 ds"

definition parseInt16 :: "string \<Rightarrow> jsnum" where
  "parseInt16 s =
     (let s1 = dropWhile isWhiteSpace s;
          sign = (case s1 of c # t \<Rightarrow> if c = CHR ''-'' then - 1 else 1 | [] \<Rightarrow> (1 :: real));
          s2 = (case s1 of c # t \<Rightarrow> if c = CHR ''-'' \<or> c = CHR ''+'' then t else s1 | [] \<Rightarrow> s1);
          s3 = (case s2 of
                  c # d # t \<Rightarrow> if c = CHR ''0'' \<and> (d = CHR ''x'' \<or> d = CHR ''X'') then t else s2
                | _ \<Rightarrow> s2);
          ds = takeWhile (\<lambda>c. hexDigitValue c \<noteq> None) s3
      in if ds = [] then NaN else Fin (fl (sign * real (hexValue ds))))"

text \<open>\<^verbatim>\<open>s.slice(a, b)\<close> for \<open>0 \<le> a \<le> b\<close>.\<close>

definition sliceStr :: "string \<Rightarrow> nat \<Rightarrow> nat \<Rightarrow> string" where
  "sliceStr s a b = take (b - a) (drop a s)"

section \<open>applyAttributes: brightness, contrast, gamma, background removal, user mask\<close>

text \<open>
  The source image and the mask as the code sees them. Both have a size. Of the source
  (an image or a canvas) the code uses the RGBA bytes that \<^verbatim>\<open>getImageData\<close> reads
  back after \<^verbatim>\<open>drawImage\<close> has drawn it on the new canvas of the same size. Of the
  mask canvas it uses what \<^verbatim>\<open>getContext('2d')\<close> gives: nothing, or a context whose
  \<^verbatim>\<open>getImageData\<close> over the whole canvas returns the given RGBA bytes.
\<close>

record Sized =
  width :: nat
  height :: nat

record Image = Sized +
  drawn :: "byte list"

record Canvas = Sized +
  getContext :: "byte list option"

text \<open>The pre-calculated contrast factor (line 177).\<close>

definition contrastFactor :: "ImageAdjustments \<Rightarrow> jsnum" where
  "contrastFactor adj =
     (Fin 259 * (Fin (contrast adj) + Fin 255)) / (Fin 255 * (Fin 259 - Fin (contrast adj)))"

text \<open>
  Lines 209-229 for one colour channel (the code repeats them for \<open>r\<close>, \<open>g\<close> and
  \<open>b\<close>): brightness, contrast, gamma, then the clamp.
\<close>

definition tone :: "ImageAdjustments \<Rightarrow> jsnum \<Rightarrow> jsnum" where
  "tone adj c =
     (let r = c + Fin (brightness adj);
          r = contrastFactor adj * (r - Fin 128) + Fin 128;
          r = (if gamma adj \<noteq> 1
               then Fin 255 * Math_pow (Math_max (Fin 0) (Math_min (Fin 255) r) / Fin 255)
                                       (Fin 1 / Fin (gamma adj))
               else r)
      in Math_max (Fin 0) (Math_min (Fin 255) r))"

text \<open>The target background colour (lines 180-197), sampled before the pixel loop.\<close>

definition targetColor :: "ImageAdjustments \<Rightarrow> byte list \<Rightarrow> jsnum \<times> jsnum \<times> jsnum" where
  "targetColor adj data =
     (if removeBg adj then
        (case bgRemoveMode adj of
           Black \<Rightarrow> (Fin 0, Fin 0, Fin 0)
         | Custom \<Rightarrow> (parseInt16 (sliceStr (customBgColor adj) 1 3),
                      parseInt16 (sliceStr (customBgColor adj) 3 5),
                      parseInt16 (sliceStr (customBgColor adj) 5 7))
         | Auto \<Rightarrow> (rd data 0, rd data 1, rd data 2)
         | White \<Rightarrow> (Fin 255, Fin 255, Fin 255))
      else (Fin 255, Fin 255, Fin 255))"

definition toleranceSq :: "ImageAdjustments \<Rightarrow> jsnum" where
  "toleranceSq adj =
     (let tolerance = Fin (bgThreshold adj) / Fin 100 * Fin 442 in tolerance * tolerance)"

text \<open>The squared distance of lines 255-258.\<close>

definition distSq :: "jsnum \<Rightarrow> jsnum \<Rightarrow> jsnum \<Rightarrow> jsnum \<times> jsnum \<times> jsnum \<Rightarrow> jsnum" where
  "distSq r g b target =
     (case target of (targetR, targetG, targetB) \<Rightarrow>
        (r - targetR) * (r - targetR) + (g - targetG) * (g - targetG) + (b - targetB) * (b - targetB))"

text \<open>
  Lines 231-264: the alpha of the pixel at byte offset \<open>i\<close>, from its adjusted colour
  \<open>r\<close>, \<open>g\<close>, \<open>b\<close>, its alpha \<open>a\<close>, the mask and the removal settings.
\<close>

definition removeAlpha ::
  "ImageAdjustments \<Rightarrow> byte list option \<Rightarrow> jsnum \<times> jsnum \<times> jsnum \<Rightarrow> nat \<Rightarrow>
   jsnum \<Rightarrow> jsnum \<Rightarrow> jsnum \<Rightarrow> jsnum \<Rightarrow> jsnum" where
  "removeAlpha adj maskData target i r g b a =
     (let forceRemove = (case maskData of None \<Rightarrow> False | Some m \<Rightarrow> Fin 10 < rd m i);
          forceKeep = (case maskData of None \<Rightarrow> False | Some m \<Rightarrow> Fin 10 < rd m (i + 1))
      in if forceRemove then Fin 0
         else if forceKeep then a
         else if removeBg adj then
           (if bgRemoveMode adj = White then
              (let luminance = Fin (fl (299 / 1000)) * r + Fin (fl (587 / 1000)) * g
                                + Fin (fl (114 / 1000)) * b;
                   cutoff = Fin 255 - Fin (bgThreshold adj) * Fin (5 / 2)
               in if cutoff < luminance then Fin 0 else a)
            else
              (if distSq r g b target \<le> toleranceSq adj then Fin 0 else a))
         else a)"

text \<open>One pass of the loop body (lines 204-269) at byte offset \<open>i\<close>.\<close>

definition pixelStep ::
  "ImageAdjustments \<Rightarrow> byte list option \<Rightarrow> jsnum \<times> jsnum \<times> jsnum \<Rightarrow> nat \<Rightarrow>
   byte list \<Rightarrow> byte list" where
  "pixelStep adj maskData target i data =
     (let r = tone adj (rd data i);
          g = tone adj (rd data (i + 1));
          b = tone adj (rd data (i + 2));
          a = removeAlpha adj maskData target i r g b (rd data (i + 3))
      in data[i := ToUint8Clamp r, i + 1 := ToUint8Clamp g,
              i + 2 := ToUint8Clamp b, i + 3 := ToUint8Clamp a])"

text \<open>The loop \<^verbatim>\<open>for (let i = 0; i < data.length; i += 4)\<close>, from offset \<open>i\<close> on.\<close>

function applyLoop ::
  "ImageAdjustments \<Rightarrow> byte list option \<Rightarrow> jsnum \<times> jsnum \<times> jsnum \<Rightarrow> nat \<Rightarrow>
   byte list \<Rightarrow> byte list" where
  "applyLoop adj maskData target i data =
     (if i < length data
      then applyLoop adj maskData target (i + 4) (pixelStep adj maskData target i data)
      else data)"
  by pat_completeness auto
termination
  by (relation "measure (\<lambda>(adj, maskData, target, i, data). length data - i)")
     (auto simp: pixelStep_def Let_def)

declare applyLoop.simps [simp del]

text \<open>
  The mask data (lines 165-174): the mask is used only when it is given, has a context
  and has the size of the canvas.
\<close>

definition getMaskData :: "Canvas option \<Rightarrow> nat \<Rightarrow> nat \<Rightarrow> byte list option" where
  "getMaskData userMask w h =
     (case userMask of
        None \<Rightarrow> None
      | Some m \<Rightarrow>
          (case getContext m of
             None \<Rightarrow> None
           | Some mdata \<Rightarrow> if width m = w \<and> height m = h then Some mdata else None))"

text \<open>
  \<open>applyAttributes ctx img adj userMask\<close> is the RGBA content of the canvas returned.
  \<open>ctx\<close> tells whether the new canvas has a 2d context. Without one the canvas is
  returned unpainted, which is transparent black.
\<close>

definition applyAttributes ::
  "bool \<Rightarrow> Image \<Rightarrow> ImageAdjustments \<Rightarrow> Canvas option \<Rightarrow> byte list" where
  "applyAttributes ctx img adj userMask =
     (if \<not> ctx then replicate (4 * width img * height img) 0
      else
        (let data = drawn img;
             maskData = getMaskData userMask (width img) (height img);
             target = targetColor adj data
         in applyLoop adj maskData target 0 data))"

section \<open>The channel separators\<close>

text \<open>
  The separators read the composited buffer \<open>px\<close> (the data of the canvas that
  \<open>applyAttributes\<close> returned) in the loop
  \<^verbatim>\<open>for (let i = 0; i < len; i += 4)\<close>, here from offset \<open>i\<close> on, with the loop
  body as a function of the offset and of the arrays written so far.
\<close>

function forPixels :: "(nat \<Rightarrow> 's \<Rightarrow> 's) \<Rightarrow> nat \<Rightarrow> nat \<Rightarrow> 's \<Rightarrow> 's" where
  "forPixels body i len st = (if i < len then forPixels body (i + 4) len (body i st) else st)"
  by pat_completeness auto
termination
  by (relation "measure (\<lambda>(body, i, len, st). len - i)") auto

declare forPixels.simps [simp del]

subsection \<open>processWhiteBase\<close>

text \<open>The scan for transparency (lines 323-329), from offset \<open>i\<close> on.\<close>

function hasTransparencyFrom :: "byte list \<Rightarrow> nat \<Rightarrow> bool" where
  "hasTransparencyFrom px i =
     (if i < length px
      then (if rd px (i + 3) < Fin 250 then True else hasTransparencyFrom px (i + 4))
      else False)"
  by pat_completeness auto
termination
  by (relation "measure (\<lambda>(px, i). length px - i)") auto

declare hasTransparencyFrom.simps [simp del]

definition luma :: "jsnum \<Rightarrow> jsnum \<Rightarrow> jsnum \<Rightarrow> jsnum" where
  "luma r g b = Fin (fl (299 / 1000)) * r + Fin (fl (587 / 1000)) * g + Fin (fl (114 / 1000)) * b"

definition whiteBaseBody :: "byte list \<Rightarrow> bool \<Rightarrow> nat \<Rightarrow> byte list \<Rightarrow> byte list" where
  "whiteBaseBody px hasTransparency i baseArr =
     (let r = rd px i;
          g = rd px (i + 1);
          b = rd px (i + 2);
          a = rd px (i + 3);
          val = (if hasTransparency then a else Fin 255 - luma r g b)
      in baseArr[i div 4 := ToUint8Clamp val])"

definition processWhiteBase :: "byte list \<Rightarrow> byte list" where
  "processWhiteBase px =
     (let len = length px;
          baseArr = replicate (len div 4) 0;
          hasTransparency = hasTransparencyFrom px 0
      in forPixels (whiteBaseBody px hasTransparency) 0 len baseArr)"

subsection \<open>processCMYK\<close>

text \<open>\<^verbatim>\<open>x || 0\<close> on a number: NaN and zero are falsy.\<close>

definition orZero :: "jsnum \<Rightarrow> jsnum" where
  "orZero x = (if x = NaN \<or> x = Fin 0 then Fin 0 else x)"

text \<open>
  Lines 373-380 at the pixel of offset \<open>i\<close>: the three quotients before the guard
  \<^verbatim>\<open>|| 0\<close> with the key \<open>k\<close>, and the ink shares \<open>c\<close>, \<open>m\<close>, \<open>y\<close>, \<open>k\<close> that the
  guard makes of them.
\<close>

definition cmykQuotients :: "byte list \<Rightarrow> nat \<Rightarrow> jsnum \<times> jsnum \<times> jsnum \<times> jsnum" where
  "cmykQuotients px i =
     (let r = rd px i / Fin 255;
          g = rd px (i + 1) / Fin 255;
          b = rd px (i + 2) / Fin 255;
          k = Fin 1 - Math_max (Math_max r g) b
      in ((Fin 1 - r - k) / (Fin 1 - k),
          (Fin 1 - g - k) / (Fin 1 - k),
          (Fin 1 - b - k) / (Fin 1 - k),
          k))"

definition cmykShares :: "byte list \<Rightarrow> nat \<Rightarrow> jsnum \<times> jsnum \<times> jsnum \<times> jsnum" where
  "cmykShares px i =
     (case cmykQuotients px i of (qc, qm, qy, k) \<Rightarrow> (orZero qc, orZero qm, orZero qy, k))"

text \<open>The loop body (lines 370-386).\<close>

definition cmykBody ::
  "byte list \<Rightarrow> nat \<Rightarrow> byte list \<times> byte list \<times> byte list \<times> byte list \<Rightarrow>
   byte list \<times> byte list \<times> byte list \<times> byte list" where
  "cmykBody px i arrs =
     (case arrs of (cArr, mArr, yArr, kArr) \<Rightarrow>
        (let alpha = rd px (i + 3) / Fin 255 in
         if alpha = Fin 0 then (cArr, mArr, yArr, kArr)
         else
           (case cmykShares px i of (c, m, y, k) \<Rightarrow>
              (let pIndex = i div 4
               in (cArr[pIndex := ToUint8Clamp (c * Fin 255 * alpha)],
                   mArr[pIndex := ToUint8Clamp (m * Fin 255 * alpha)],
                   yArr[pIndex := ToUint8Clamp (y * Fin 255 * alpha)],
                   kArr[pIndex := ToUint8Clamp (k * Fin 255 * alpha)])))))"

text \<open>The four density arrays, in the order Cyan, Magenta, Yellow, Key.\<close>

definition processCMYK :: "byte list \<Rightarrow> byte list \<times> byte list \<times> byte list \<times> byte list" where
  "processCMYK px =
     (let len = length px;
          cArr = replicate (len div 4) 0;
          mArr = replicate (len div 4) 0;
          yArr = replicate (len div 4) 0;
          kArr = replicate (len div 4) 0
      in forPixels (cmykBody px) 0 len (cArr, mArr, yArr, kArr))"

subsection \<open>processSpotColors\<close>

record SpotColor =
  spot_id :: string
  name :: string
  color :: string
  threshold :: real

text \<open>A target of line 408: the parsed \<open>r\<close>, \<open>g\<close>, \<open>b\<close> and the spot colour itself.\<close>

type_synonym target = "jsnum \<times> jsnum \<times> jsnum \<times> SpotColor"

definition toTarget :: "SpotColor \<Rightarrow> target" where
  "toTarget sc =
     (parseInt16 (sliceStr (color sc) 1 3),
      parseInt16 (sliceStr (color sc) 3 5),
      parseInt16 (sliceStr (color sc) 5 7),
      sc)"

text \<open>Lines 426-438: the similarity of the pixel colour \<open>r\<close>, \<open>g\<close>, \<open>b\<close> to a target.\<close>

definition similarity :: "target \<Rightarrow> jsnum \<Rightarrow> jsnum \<Rightarrow> jsnum \<Rightarrow> jsnum" where
  "similarity target r g b =
     (case target of (targetR, targetG, targetB, sc) \<Rightarrow>
        (let dist = Math_sqrt (Math_pow (targetR - r) (Fin 2)
                             + Math_pow (targetG - g) (Fin 2)
                             + Math_pow (targetB - b) (Fin 2));
             maxDist = Fin 442;
             sensitivity = Fin 1 + Fin (threshold sc) / Fin 20;
             similarity = Fin 1 - dist / (maxDist / sensitivity);
             similarity = (if similarity < Fin 0 then Fin 0 else similarity)
         in Math_pow similarity (Fin 3)))"

text \<open>\<^verbatim>\<open>targets.forEach((target, idx) => ...)\<close> at the pixel of offset \<open>i\<close>.\<close>

fun spotForEach ::
  "target list \<Rightarrow> nat \<Rightarrow> nat \<Rightarrow> jsnum \<Rightarrow> jsnum \<Rightarrow> jsnum \<Rightarrow> jsnum \<Rightarrow>
   byte list list \<Rightarrow> byte list list" where
  "spotForEach [] idx i r g b alpha channels = channels"
| "spotForEach (target # rest) idx i r g b alpha channels =
     spotForEach rest (idx + 1) i r g b alpha
       (channels[idx := (channels ! idx)
          [i div 4 := ToUint8Clamp (similarity target r g b * Fin 255 * alpha)]])"

definition spotBody :: "target list \<Rightarrow> byte list \<Rightarrow> nat \<Rightarrow> byte list list \<Rightarrow> byte list list" where
  "spotBody targets px i channels =
     (let alpha = rd px (i + 3) / Fin 255 in
      if alpha = Fin 0 then channels
      else spotForEach targets 0 i (rd px i) (rd px (i + 1)) (rd px (i + 2)) alpha channels)"

definition processSpotColors :: "byte list \<Rightarrow> SpotColor list \<Rightarrow> byte list list" where
  "processSpotColors px spotColors =
     (let len = length px;
          targets = map toTarget spotColors;
          channels = map (\<lambda>_. replicate (len div 4) 0) targets
      in forPixels (spotBody targets px) 0 len channels)"

section \<open>extractDominantColors\<close>



















section \<open>The tone stages as the specification words them\<close>

text \<open>
  The specification describes the tone adjustment as three stages, each one's result
  clamped to 0..255 before the next. These definitions follow its words; \<open>tone\<close>
  above follows the code.
\<close>

definition clamp255 :: "jsnum \<Rightarrow> jsnum" where
  "clamp255 x = Math_max (Fin 0) (Math_min (Fin 255) x)"

definition brightnessStage :: "ImageAdjustments \<Rightarrow> jsnum \<Rightarrow> jsnum" where
  "brightnessStage adj c = c + Fin (brightness adj)"

definition contrastStage :: "ImageAdjustments \<Rightarrow> jsnum \<Rightarrow> jsnum" where
  "contrastStage adj c = contrastFactor adj * (c - Fin 128) + Fin 128"

definition gammaStage :: "ImageAdjustments \<Rightarrow> jsnum \<Rightarrow> jsnum" where
  "gammaStage adj c =
     (if gamma adj \<noteq> 1 then Fin 255 * Math_pow (c / Fin 255) (Fin 1 / Fin (gamma adj)) else c)"

definition toneClampedEachStage :: "ImageAdjustments \<Rightarrow> jsnum \<Rightarrow> jsnum" where
  "toneClampedEachStage adj c =
     clamp255 (gammaStage adj (clamp255 (contrastStage adj (clamp255 (brightnessStage adj c)))))"

section \<open>The frequency of a quantised colour\<close>






section \<open>Example inputs\<close>

text \<open>An image of two pixels, a mask of the same size, a mask of another size.\<close>

definition exampleImage :: Image where
  "exampleImage = \<lparr>width = 2, height = 1, drawn = [200, 10, 20, 255, 0, 0, 0, 200]\<rparr>"

definition exampleMask :: Canvas where
  "exampleMask = \<lparr>width = 2, height = 1, getContext = Some [255, 255, 0, 255, 0, 255, 0, 255]\<rparr>"

definition exampleWideMask :: Canvas where
  "exampleWideMask =
     \<lparr>width = 3, height = 1, getContext = Some [255, 255, 0, 255, 0, 255, 0, 255, 0, 0, 0, 0]\<rparr>"

definition exampleAdjustments :: ImageAdjustments where
  "exampleAdjustments =
     \<lparr>brightness = 100, contrast = - 100, gamma = 1, removeBg = True, bgRemoveMode = Auto,
      customBgColor = ''#000000'', bgThreshold = 20\<rparr>"

text \<open>
  Two pixels, grey (100, 100, 100) at (0,0) and black, both opaque, with the settings
  of the application at start but for brightness 100 and the automatic removal.
\<close>

definition exampleAutoImage :: Image where
  "exampleAutoImage = \<lparr>width = 2, height = 1, drawn = [100, 100, 100, 255, 0, 0, 0, 255]\<rparr>"

definition exampleAutoAdjustments :: ImageAdjustments where
  "exampleAutoAdjustments =
     \<lparr>brightness = 100, contrast = 0, gamma = 1, removeBg = True, bgRemoveMode = Auto,
      customBgColor = ''#ffffff'', bgThreshold = 20\<rparr>"





definition exampleSpot :: SpotColor where
  "exampleSpot = \<lparr>spot_id = ''2'', name = ''Orange'', color = ''#ff8800'', threshold = 50\<rparr>"


section \<open>Notions used in the proofs\<close>

text \<open>The four density arrays have length \<open>n\<close>; their entries for pixel \<open>p\<close>.\<close>

definition cmykInv :: "nat \<Rightarrow> byte list \<times> byte list \<times> byte list \<times> byte list \<Rightarrow> bool" where
  "cmykInv n arrs =
     (case arrs of (c, m, y, k) \<Rightarrow> length c = n \<and> length m = n \<and> length y = n \<and> length k = n)"

definition cmykAt :: "nat \<Rightarrow> byte list \<times> byte list \<times> byte list \<times> byte list \<Rightarrow> byte \<times> byte \<times> byte \<times> byte" where
  "cmykAt p arrs = (case arrs of (c, m, y, k) \<Rightarrow> (c ! p, m ! p, y ! p, k ! p))"

text \<open>There are \<open>k\<close> channels, each of length \<open>n\<close>.\<close>

definition spotInv :: "nat \<Rightarrow> nat \<Rightarrow> byte list list \<Rightarrow> bool" where
  "spotInv k n chs = (length chs = k \<and> (\<forall>ch \<in> set chs. length ch = n))"





section \<open>Rounding to a double\<close>

text \<open>
  The error of \<open>fl\<close> is at most half a unit in the last place, which is at most
  \<open>\<bar>x\<bar> / 2 ^ 53\<close>; a whole number below \<open>2 ^ 53\<close> in absolute value, and such a number
  divided by a power of two, is a double; and \<open>fl\<close> of a number in a known binade is
  found by rounding a multiple of a power of two (\<open>fl_eval\<close>).
\<close>

lemma roundHalfEven_of_int: "roundHalfEven (of_int n) = n"
  by (simp add: roundHalfEven_def)

lemma roundHalfEven_near: "\<bar>real_of_int (roundHalfEven x) - x\<bar> \<le> 1 / 2"
  unfolding roundHalfEven_def Let_def by (auto; linarith)

lemma ulp_pos: "0 < ulp x"
  by (simp add: ulp_def)

lemma fl_zero [simp]: "fl 0 = 0"
  by (simp add: fl_def)

lemma binade:
  assumes "x \<noteq> 0"
  shows "2 powr (of_int \<lfloor>log 2 \<bar>x\<bar>\<rfloor>) \<le> \<bar>x\<bar>" and "\<bar>x\<bar> < 2 powr (of_int \<lfloor>log 2 \<bar>x\<bar>\<rfloor> + 1)"
proof -
  have p: "0 < \<bar>x\<bar>" using assms by simp
  have e: "2 powr (log 2 \<bar>x\<bar>) = \<bar>x\<bar>" using p by simp
  have "2 powr (of_int \<lfloor>log 2 \<bar>x\<bar>\<rfloor>) \<le> 2 powr (log 2 \<bar>x\<bar>)"
    by (subst powr_le_cancel_iff) simp_all
  then show "2 powr (of_int \<lfloor>log 2 \<bar>x\<bar>\<rfloor>) \<le> \<bar>x\<bar>" unfolding e .
  have "log 2 \<bar>x\<bar> < of_int \<lfloor>log 2 \<bar>x\<bar>\<rfloor> + 1" by linarith
  then have "2 powr (log 2 \<bar>x\<bar>) < 2 powr (of_int \<lfloor>log 2 \<bar>x\<bar>\<rfloor> + 1)"
    by (subst powr_less_cancel_iff) simp_all
  then show "\<bar>x\<bar> < 2 powr (of_int \<lfloor>log 2 \<bar>x\<bar>\<rfloor> + 1)" unfolding e .
qed

lemma ulp_eq:
  assumes "2 powr (of_int e) \<le> \<bar>x\<bar>" and "\<bar>x\<bar> < 2 powr (of_int e + 1)"
  shows "ulp x = 2 powr (of_int e - 52)"
proof -
  have "0 < 2 powr (real_of_int e)" by simp
  with assms(1) have p: "0 < \<bar>x\<bar>" by linarith
  have e: "2 powr (log 2 \<bar>x\<bar>) = \<bar>x\<bar>" using p by simp
  have "2 powr (of_int e) \<le> 2 powr (log 2 \<bar>x\<bar>)" unfolding e by (rule assms(1))
  then have "of_int e \<le> log 2 \<bar>x\<bar>" by (subst (asm) powr_le_cancel_iff) simp_all
  moreover have "2 powr (log 2 \<bar>x\<bar>) < 2 powr (of_int e + 1)" unfolding e by (rule assms(2))
  then have "log 2 \<bar>x\<bar> < of_int e + 1" by (subst (asm) powr_less_cancel_iff) simp_all
  ultimately have "\<lfloor>log 2 \<bar>x\<bar>\<rfloor> = e" by linarith
  then show ?thesis by (simp add: ulp_def)
qed

lemma ulp_le: "x \<noteq> 0 \<Longrightarrow> ulp x \<le> \<bar>x\<bar> / 2 ^ 52"
proof -
  assume "x \<noteq> 0"
  then have "2 powr (of_int \<lfloor>log 2 \<bar>x\<bar>\<rfloor>) \<le> \<bar>x\<bar>" by (rule binade)
  moreover have "ulp x = 2 powr (of_int \<lfloor>log 2 \<bar>x\<bar>\<rfloor>) / 2 ^ 52"
    by (simp add: ulp_def powr_diff)
  ultimately show ?thesis by (simp add: divide_right_mono)
qed

lemma fl_error_ulp: "\<bar>fl x - x\<bar> \<le> ulp x / 2"
proof (cases "x = 0")
  case True
  then show ?thesis using ulp_pos [of 0] by (simp add: fl_def)
next
  case False
  have "\<bar>real_of_int (roundHalfEven (x / ulp x)) - x / ulp x\<bar> \<le> 1 / 2"
    by (rule roundHalfEven_near)
  then have "\<bar>real_of_int (roundHalfEven (x / ulp x)) - x / ulp x\<bar> * ulp x \<le> 1 / 2 * ulp x"
    using ulp_pos [of x] by (intro mult_right_mono) simp_all
  moreover have "\<bar>real_of_int (roundHalfEven (x / ulp x)) - x / ulp x\<bar> * ulp x =
      \<bar>real_of_int (roundHalfEven (x / ulp x)) * ulp x - x\<bar>"
  proof -
    have "(real_of_int (roundHalfEven (x / ulp x)) - x / ulp x) * ulp x =
        real_of_int (roundHalfEven (x / ulp x)) * ulp x - x"
      using ulp_pos [of x] by (simp add: left_diff_distrib)
    then have "\<bar>real_of_int (roundHalfEven (x / ulp x)) - x / ulp x\<bar> * \<bar>ulp x\<bar> =
        \<bar>real_of_int (roundHalfEven (x / ulp x)) * ulp x - x\<bar>"
      by (simp only: abs_mult [symmetric])
    then show ?thesis using ulp_pos [of x] by simp
  qed
  ultimately show ?thesis using False by (simp add: fl_def)
qed

lemma fl_error: "\<bar>fl x - x\<bar> \<le> \<bar>x\<bar> / 2 ^ 53"
proof (cases "x = 0")
  case True
  then show ?thesis by (simp add: fl_def)
next
  case False
  have "\<bar>fl x - x\<bar> \<le> ulp x / 2" by (rule fl_error_ulp)
  also have "\<dots> \<le> (\<bar>x\<bar> / 2 ^ 52) / 2" using ulp_le [OF False] by simp
  finally show ?thesis by simp
qed


lemma fl_exact:
  assumes "x / ulp x = of_int k"
  shows "fl x = x"
proof (cases "x = 0")
  case True
  then show ?thesis by (simp add: fl_def)
next
  case False
  have "fl x = of_int k * ulp x"
    using False by (simp add: fl_def assms roundHalfEven_of_int)
  also have "\<dots> = x / ulp x * ulp x" by (simp add: assms)
  also have "\<dots> = x" using ulp_pos [of x] by simp
  finally show ?thesis .
qed

lemma fl_dyadic:
  assumes "\<bar>n\<bar> < 2 ^ 53"
  shows "fl (of_int n / 2 ^ j) = of_int n / 2 ^ j"
proof (cases "n = 0")
  case True
  then show ?thesis by (simp add: fl_def)
next
  case False
  define x :: real where "x = of_int n / 2 ^ j"
  define e where "e = \<lfloor>log 2 \<bar>x\<bar>\<rfloor>"
  have x0: "x \<noteq> 0" using False by (simp add: x_def)
  have "\<bar>x\<bar> = \<bar>real_of_int n\<bar> / 2 ^ j" by (simp add: x_def)
  also have "\<dots> < 2 ^ 53 / 2 ^ j"
  proof -
    have "real_of_int \<bar>n\<bar> < real_of_int (2 ^ 53)" using assms by (simp only: of_int_less_iff)
    then have "\<bar>real_of_int n\<bar> < 2 ^ 53" by simp
    then show ?thesis by (simp add: divide_strict_right_mono)
  qed
  also have "\<dots> = 2 powr (53 - real j)"
    by (simp add: powr_diff powr_realpow)
  finally have ub: "\<bar>x\<bar> < 2 powr (53 - real j)" .
  have "2 powr (of_int e) \<le> \<bar>x\<bar>" unfolding e_def using x0 by (rule binade)
  with ub have "2 powr (of_int e) < 2 powr (53 - real j)" by linarith
  then have "of_int e < 53 - real j" by (subst (asm) powr_less_cancel_iff) simp_all
  then have d: "0 \<le> 52 - int j - e" by linarith
  have u: "ulp x = 2 powr (of_int e - 52)" by (simp add: ulp_def e_def)
  have "x / ulp x = of_int n * (2 powr (52 - of_int e) / 2 ^ j)"
    unfolding u by (simp add: x_def powr_diff)
  also have "2 powr (52 - real_of_int e) / 2 ^ j = 2 powr (real_of_int (52 - int j - e))"
    by (simp add: powr_diff powr_realpow)
  also have "\<dots> = 2 ^ nat (52 - int j - e)"
  proof -
    have "real_of_int (52 - int j - e) = real (nat (52 - int j - e))" using d by simp
    then show ?thesis by (simp only: powr_realpow [of 2, OF zero_less_numeral])
  qed
  also have "real_of_int n * 2 ^ nat (52 - int j - e) = of_int (n * 2 ^ nat (52 - int j - e))"
    by simp
  finally show ?thesis unfolding x_def [symmetric] by (rule fl_exact)
qed

lemma fl_int: "\<bar>n\<bar> < 2 ^ 53 \<Longrightarrow> fl (of_int n) = of_int n"
  using fl_dyadic [of n 0] by simp


lemma fl_eval:
  assumes "2 ^ 52 \<le> \<bar>x\<bar> * 2 ^ n" and "\<bar>x\<bar> * 2 ^ n < 2 ^ 53"
  shows "fl x = of_int (roundHalfEven (x * 2 ^ n)) / 2 ^ n"
proof -
  have "2 powr (of_int (52 - int n)) = (2 :: real) ^ 52 / 2 ^ n"
    by (simp add: powr_diff powr_realpow)
  also have "\<dots> \<le> \<bar>x\<bar>" using assms(1) by (simp add: divide_le_eq)
  finally have 1: "2 powr (of_int (52 - int n)) \<le> \<bar>x\<bar>" .
  have "\<bar>x\<bar> < 2 ^ 53 / 2 ^ n" using assms(2) by (simp add: less_divide_eq)
  also have "\<dots> = 2 powr (of_int (52 - int n) + 1)"
    by (simp add: powr_diff powr_realpow powr_add)
  finally have 2: "\<bar>x\<bar> < 2 powr (of_int (52 - int n) + 1)" .
  have "ulp x = 2 powr (of_int (52 - int n) - 52)" using 1 2 by (rule ulp_eq)
  also have "\<dots> = 1 / 2 ^ n" by (simp add: powr_minus powr_realpow divide_inverse)
  finally have u: "ulp x = 1 / 2 ^ n" .
  have "x \<noteq> 0" using assms(1) by auto
  then show ?thesis by (simp add: fl_def u)
qed

lemma fl_nonzero: "x \<noteq> 0 \<Longrightarrow> fl x \<noteq> 0"
proof
  assume "x \<noteq> 0" "fl x = 0"
  then have "\<bar>x\<bar> \<le> \<bar>x\<bar> / 2 ^ 53" using fl_error [of x] by simp
  moreover have "\<bar>x\<bar> / 2 ^ 53 < \<bar>x\<bar>" using \<open>x \<noteq> 0\<close> by simp
  ultimately show False by linarith
qed

lemma fl_error_nonneg: "0 \<le> x \<Longrightarrow> \<bar>fl x - x\<bar> \<le> x / 2 ^ 53"
  using fl_error [of x] by (simp only: abs_of_nonneg)

lemma fl_nonneg: "0 \<le> x \<Longrightarrow> 0 \<le> fl x"
proof -
  assume x: "0 \<le> x"
  have "x / 2 ^ 53 \<le> x" using x by (simp add: divide_le_eq)
  with fl_error_nonneg [OF x] show ?thesis by linarith
qed

lemma fl_upper: "0 \<le> x \<Longrightarrow> fl x \<le> x + x / 2 ^ 53"
  using fl_error_nonneg [of x] by linarith



lemma roundHalfEven_eq:
  assumes "\<bar>x - of_int n\<bar> < 1 / 2"
  shows "roundHalfEven x = n"
proof -
  have "\<bar>real_of_int (roundHalfEven x) - x\<bar> \<le> 1 / 2" by (rule roundHalfEven_near)
  with assms have "\<bar>real_of_int (roundHalfEven x) - of_int n\<bar> < 1" by linarith
  then have "\<bar>real_of_int (roundHalfEven x - n)\<bar> < 1" by simp
  then have "\<bar>roundHalfEven x - n\<bar> < 1" by linarith
  then show ?thesis by linarith
qed

lemma roundHalfEven_neg: "roundHalfEven (- x) = - roundHalfEven x"
proof (cases "x = of_int \<lfloor>x\<rfloor>")
  case True
  then have "- x = of_int (- \<lfloor>x\<rfloor>)" by simp
  then have "roundHalfEven (- x) = - \<lfloor>x\<rfloor>" by (simp only: roundHalfEven_of_int)
  moreover have "roundHalfEven x = \<lfloor>x\<rfloor>" using True by (metis roundHalfEven_of_int)
  ultimately show ?thesis by simp
next
  case False
  then have lt: "of_int \<lfloor>x\<rfloor> < x" "x < of_int \<lfloor>x\<rfloor> + 1" by linarith+
  have f: "\<lfloor>- x\<rfloor> = - \<lfloor>x\<rfloor> - 1"
  proof (rule floor_unique)
    show "real_of_int (- \<lfloor>x\<rfloor> - 1) \<le> - x"
      using lt unfolding of_int_diff of_int_minus of_int_1 by linarith
    show "- x < real_of_int (- \<lfloor>x\<rfloor> - 1) + 1"
      using lt unfolding of_int_diff of_int_minus of_int_1 by linarith
  qed
  show ?thesis
    unfolding roundHalfEven_def Let_def f using lt by auto
qed

lemma ulp_neg: "ulp (- x) = ulp x"
  by (simp add: ulp_def)

lemma fl_neg [simp]: "fl (- x) = - fl x"
  by (simp add: fl_def ulp_neg roundHalfEven_neg)

lemma fl_one [simp]: "fl 1 = 1"
  using fl_int [of 1] by simp

lemma fl_numeral [simp]: "(numeral k :: int) < 2 ^ 53 \<Longrightarrow> fl (numeral k) = numeral k"
  using fl_int [of "numeral k"] by simp

lemma fl_half_numeral: "(numeral k :: int) < 2 ^ 53 \<Longrightarrow> fl (numeral k / 2) = numeral k / 2"
  using fl_dyadic [of "numeral k" 1] by simp

lemma fl_near:
  assumes "\<bar>x\<bar> \<le> 1024"
  shows "\<bar>fl x - x\<bar> \<le> 1 / 1000000000000"
proof -
  have "\<bar>fl x - x\<bar> \<le> \<bar>x\<bar> / 2 ^ 53" by (rule fl_error)
  also have "\<dots> \<le> 1024 / 2 ^ 53" using assms by (intro divide_right_mono) simp_all
  also have "\<dots> \<le> 1 / 1000000000000" by simp
  finally show ?thesis .
qed

lemma fl_le_twice: "0 \<le> x \<Longrightarrow> fl x \<le> 2 * x"
proof -
  assume x: "0 \<le> x"
  have "x / 2 ^ 53 \<le> x" using x by (simp add: divide_le_eq)
  with fl_upper [OF x] show ?thesis by linarith
qed


lemma fl_eq_0_iff [simp]: "fl x = 0 \<longleftrightarrow> x = 0"
  using fl_nonzero [of x] by auto


section \<open>Bytes and stores\<close>

lemma byte_lt: "unat (w :: byte) < 256"
  using unsigned_less [of w, where 'a = nat] by simp

lemma byte_255:
  assumes "255 \<le> unat (w :: byte)"
  shows "w = 255"
proof -
  have "unat w = unat (255 :: byte)" using byte_lt [of w] assms by simp
  then show ?thesis by (simp only: word_unat_eq_iff)
qed

lemma ToUint8Clamp_byte: "ToUint8Clamp (Fin (real (unat (w :: byte)))) = w"
proof -
  have r: "roundHalfEven (real (unat w)) = int (unat w)"
    using roundHalfEven_of_int [of "int (unat w)"] by (simp del: of_nat_unat)
  have z: "real (unat w) \<le> 0 \<Longrightarrow> w = 0" by (simp add: unat_eq_0 del: of_nat_unat)
  have t: "255 \<le> real (unat w) \<Longrightarrow> w = 255" using byte_255 [of w] by (simp del: of_nat_unat)
  have m: "word_of_int (roundHalfEven (real (unat w))) = w" unfolding r by simp
  show ?thesis unfolding ToUint8Clamp.simps using z t m by presburger
qed

lemma ToUint8Clamp_num: "ToUint8Clamp (num w) = w"
  unfolding num_def by (rule ToUint8Clamp_byte)

lemma ToUint8Clamp_rd: "n < length d \<Longrightarrow> ToUint8Clamp (rd d n) = d ! n"
  by (simp add: rd_def ToUint8Clamp_num)

lemma num_gt_10: "Fin 10 < num w \<longleftrightarrow> 10 < unat w"
proof -
  have "(10 :: real) < real (unat w) \<longleftrightarrow> 10 < unat w"
    using of_nat_less_iff [of 10 "unat w", where 'a = real]
    by (simp del: of_nat_unat of_nat_less_iff)
  then show ?thesis unfolding num_def less_jsnum.simps .
qed

text \<open>A number within a half of a byte is stored as that byte.\<close>

lemma ToUint8Clamp_near:
  assumes "\<bar>x - real (unat (w :: byte))\<bar> < 1 / 2"
  shows "ToUint8Clamp (Fin x) = w"
proof -
  have r: "roundHalfEven x = int (unat w)"
    using assms by (intro roundHalfEven_eq) (simp del: of_nat_unat)
  have z: "x \<le> 0 \<Longrightarrow> w = 0"
  proof -
    assume "x \<le> 0"
    with assms have "real (unat w) < 1" by linarith
    then have "unat w = 0" by linarith
    then show "w = 0" by (simp add: unat_eq_0)
  qed
  have t: "255 \<le> x \<Longrightarrow> w = 255"
  proof -
    assume "255 \<le> x"
    with assms have "254 < real (unat w)" by linarith
    then have "255 \<le> unat w" by linarith
    then show "w = 255" by (rule byte_255)
  qed
  have m: "word_of_int (roundHalfEven x) = w" unfolding r by simp
  show ?thesis unfolding ToUint8Clamp.simps using z t m by presburger
qed

section \<open>The pixel loop of applyAttributes\<close>

lemma length_pixelStep: "length (pixelStep adj m t i data) = length data"
  by (simp add: pixelStep_def Let_def)

lemma length_applyLoop: "length (applyLoop adj m t i data) = length data"
proof (induction adj m t i data rule: applyLoop.induct)
  case (1 adj m t i data)
  show ?case
  proof (cases "i < length data")
    case True
    with 1 show ?thesis by (simp add: applyLoop.simps [of _ _ _ i data] length_pixelStep)
  next
    case False
    then show ?thesis by (simp add: applyLoop.simps [of _ _ _ i data])
  qed
qed

lemma pixelStep_other: "n < i \<or> i + 4 \<le> n \<Longrightarrow> pixelStep adj m t i data ! n = data ! n"
  by (auto simp: pixelStep_def Let_def)

text \<open>The loop from offset \<open>i\<close> on leaves the bytes before \<open>i\<close> alone.\<close>

lemma applyLoop_below: "n < i \<Longrightarrow> applyLoop adj m t i data ! n = data ! n"
proof (induction adj m t i data rule: applyLoop.induct)
  case (1 adj m t i data)
  show ?case
  proof (cases "i < length data")
    case True
    have "applyLoop adj m t i data ! n = applyLoop adj m t (i + 4) (pixelStep adj m t i data) ! n"
      using True by (simp add: applyLoop.simps [of _ _ _ i data])
    also have "\<dots> = pixelStep adj m t i data ! n"
      using 1 True by simp
    also have "\<dots> = data ! n"
      using 1(2) by (simp add: pixelStep_other)
    finally show ?thesis .
  next
    case False
    then show ?thesis by (simp add: applyLoop.simps [of _ _ _ i data])
  qed
qed

lemma upd_nth_cong:
  "length d = length d' \<Longrightarrow> d ! n = d' ! n \<Longrightarrow> d[a := A] ! n = d'[a := A] ! n"
  by (cases "a < length d") (auto simp: nth_list_update list_update_beyond)

lemma upd4_nth_cong:
  "length d = length d' \<Longrightarrow> d ! n = d' ! n \<Longrightarrow>
   d[a := A, b := B, c := C, e := D] ! n = d'[a := A, b := B, c := C, e := D] ! n"
  by (intro upd_nth_cong) simp_all

text \<open>The body at offset \<open>j\<close> reads the four bytes of its own pixel only.\<close>

lemma pixelStep_cong:
  assumes "length d = length d'"
    and "\<And>n. j \<le> n \<Longrightarrow> n < j + 4 \<Longrightarrow> d ! n = d' ! n"
    and "k < 4"
  shows "pixelStep adj m t j d ! (j + k) = pixelStep adj m t j d' ! (j + k)"
proof -
  have r: "rd d j = rd d' j" "rd d (j + 1) = rd d' (j + 1)" "rd d (j + 2) = rd d' (j + 2)"
       "rd d (j + 3) = rd d' (j + 3)"
    using assms(1,2) by (simp_all add: rd_def)
  have "d ! (j + k) = d' ! (j + k)" using assms by simp
  with assms(1) show ?thesis
    unfolding pixelStep_def Let_def r by (rule upd4_nth_cong)
qed

text \<open>
  So the bytes of the pixel at offset \<open>j\<close> in the result are those the body writes
  there from the source bytes of that pixel.
\<close>

lemma applyLoop_pixel:
  "4 dvd i \<Longrightarrow> 4 dvd j \<Longrightarrow> i \<le> j \<Longrightarrow> j < length data \<Longrightarrow> k < 4 \<Longrightarrow>
   applyLoop adj m t i data ! (j + k) = pixelStep adj m t j data ! (j + k)"
proof (induction adj m t i data rule: applyLoop.induct)
  case (1 adj m t i data)
  from 1(4,5) have il: "i < length data" by simp
  have unf: "applyLoop adj m t i data = applyLoop adj m t (i + 4) (pixelStep adj m t i data)"
    using il by (simp add: applyLoop.simps [of _ _ _ i data])
  show ?case
  proof (cases "i = j")
    case True
    have "applyLoop adj m t (i + 4) (pixelStep adj m t i data) ! (i + k)
          = pixelStep adj m t i data ! (i + k)"
      using 1(6) by (intro applyLoop_below) simp
    then show ?thesis unfolding True [symmetric] unf .
  next
    case False
    with 1(2,3,4) have ge: "i + 4 \<le> j" by (auto simp: dvd_def)
    have "applyLoop adj m t (i + 4) (pixelStep adj m t i data) ! (j + k)
          = pixelStep adj m t j (pixelStep adj m t i data) ! (j + k)"
      by (rule 1(1) [OF il _ 1(3) ge _ 1(6)]) (simp_all add: length_pixelStep 1(2,5))
    also have "\<dots> = pixelStep adj m t j data ! (j + k)"
    proof (rule pixelStep_cong)
      show "length (pixelStep adj m t i data) = length data" by (rule length_pixelStep)
      show "k < 4" by (rule 1(6))
      fix n assume "j \<le> n" "n < j + 4"
      with ge have "i + 4 \<le> n" by simp
      then show "pixelStep adj m t i data ! n = data ! n" by (simp add: pixelStep_other)
    qed
    finally show ?thesis unfolding unf .
  qed
qed

lemma removeAlpha_cases:
  "removeAlpha adj m t i r g b a = Fin 0 \<or> removeAlpha adj m t i r g b a = a"
  by (auto simp: removeAlpha_def Let_def)

lemma pixelStep_alpha:
  "j + 3 < length data \<Longrightarrow>
   pixelStep adj m t j data ! (j + 3) =
     ToUint8Clamp (removeAlpha adj m t j (tone adj (rd data j)) (tone adj (rd data (j + 1)))
       (tone adj (rd data (j + 2))) (rd data (j + 3)))"
  by (simp add: pixelStep_def Let_def)

text \<open>The alpha byte of the pixel at offset \<open>j\<close> of the canvas returned.\<close>

lemma applyAttributes_alpha:
  assumes "drawn img = data" and "4 dvd j" and "j + 3 < length data"
  shows "applyAttributes True img adj userMask ! (j + 3) =
     ToUint8Clamp (removeAlpha adj (getMaskData userMask (width img) (height img))
       (targetColor adj data) j (tone adj (rd data j)) (tone adj (rd data (j + 1)))
       (tone adj (rd data (j + 2))) (rd data (j + 3)))"
proof -
  have "applyAttributes True img adj userMask ! (j + 3) =
        pixelStep adj (getMaskData userMask (width img) (height img)) (targetColor adj data)
          j data ! (j + 3)"
    using assms by (simp add: applyAttributes_def Let_def applyLoop_pixel)
  then show ?thesis using assms(3) by (simp add: pixelStep_alpha)
qed

lemmas example_defs =
  exampleImage_def exampleMask_def exampleWideMask_def exampleAdjustments_def


section \<open>The user mask\<close>

text \<open>
  C3. A pixel whose mask bytes have both red above 10 and green above 10 gets alpha 0,
  whatever the settings: the erase mark is tested before the keep mark. The pixel is
  the one at byte offset \<open>j\<close>, the mask is the one the code accepts (it has a context
  and the size of the image).
\<close>

theorem erase_wins_over_keep:
  assumes "drawn img = data"
    and "getContext m = Some mdata" and "width m = width img" and "height m = height img"
    and "4 dvd j" and "j + 3 < length data" and "j + 1 < length mdata"
    and "10 < unat (mdata ! j)" and "10 < unat (mdata ! (j + 1))"
  shows "applyAttributes True img adj (Some m) ! (j + 3) = 0"
proof -
  have "getMaskData (Some m) (width img) (height img) = Some mdata"
    using assms(2,3,4) by (simp add: getMaskData_def)
  moreover have "Fin 10 < rd mdata j"
    using assms(7,8) by (simp add: rd_def num_gt_10)
  ultimately show ?thesis
    using assms(1,5,6) by (simp add: applyAttributes_alpha removeAlpha_def)
qed

theorem erase_wins_over_keep_witness:
  "applyAttributes True exampleImage exampleAdjustments (Some exampleMask) ! (0 + 3) = 0"
  by (rule erase_wins_over_keep
        [where data = "[200, 10, 20, 255, 0, 0, 0, 200]"
           and mdata = "[255, 255, 0, 255, 0, 255, 0, 255]"])
     (simp_all add: example_defs)

text \<open>
  C4. The alpha byte of every pixel of the canvas returned is at most the alpha byte
  of that pixel in the source, for every buffer, every settings value and every mask,
  given or not.
\<close>

theorem alpha_never_increases:
  assumes "drawn img = data" and "4 dvd j" and "j + 3 < length data"
  shows "applyAttributes True img adj userMask ! (j + 3) \<le> data ! (j + 3)"
proof -
  let ?a = "removeAlpha adj (getMaskData userMask (width img) (height img))
       (targetColor adj data) j (tone adj (rd data j)) (tone adj (rd data (j + 1)))
       (tone adj (rd data (j + 2))) (rd data (j + 3))"
  have "?a = Fin 0 \<or> ?a = rd data (j + 3)" by (rule removeAlpha_cases)
  then have "ToUint8Clamp ?a = 0 \<or> ToUint8Clamp ?a = data ! (j + 3)"
    using assms(3) by (auto simp: ToUint8Clamp_rd)
  then show ?thesis
    unfolding applyAttributes_alpha [OF assms] by auto
qed

theorem alpha_never_increases_witness:
  "applyAttributes True exampleImage exampleAdjustments (Some exampleMask) ! (4 + 3) \<le> 200"
  using alpha_never_increases
    [of exampleImage "[200, 10, 20, 255, 0, 0, 0, 200]" 4 exampleAdjustments "Some exampleMask"]
  by (simp add: example_defs)

text \<open>
  C9. A mask whose width or height differs from the source's gives the same canvas as
  no mask at all.
\<close>

theorem mask_size_mismatch_is_no_mask:
  "width m \<noteq> width img \<or> height m \<noteq> height img \<Longrightarrow>
   applyAttributes ctx img adj (Some m) = applyAttributes ctx img adj None"
  by (auto simp: applyAttributes_def getMaskData_def split: option.splits)

theorem mask_size_mismatch_is_no_mask_witness:
  "applyAttributes True exampleImage exampleAdjustments (Some exampleWideMask) =
   applyAttributes True exampleImage exampleAdjustments None"
  using mask_size_mismatch_is_no_mask [of exampleWideMask exampleImage True exampleAdjustments]
  by (simp add: example_defs)

section \<open>The tone stages\<close>

lemma clamp255_idem: "clamp255 (clamp255 x) = clamp255 x"
  by (cases x) (auto simp: clamp255_def Math_max_def Math_min_def)

lemma clamp255_range: "clamp255 x = NaN \<or> (\<exists>y. clamp255 x = Fin y \<and> 0 \<le> y \<and> y \<le> 255)"
  by (cases x) (auto simp: clamp255_def Math_max_def Math_min_def)

lemma pixelStep_colour:
  assumes "j + 3 < length data" and "k < 3"
  shows "pixelStep adj m t j data ! (j + k) = ToUint8Clamp (tone adj (num (data ! (j + k))))"
proof -
  from assms(1) have l: "j < length data" "j + 1 < length data" "j + 2 < length data" by linarith+
  have r: "rd data j = num (data ! j)" "rd data (j + 1) = num (data ! (j + 1))"
    "rd data (j + 2) = num (data ! (j + 2))"
    using l by (simp_all add: rd_def)
  from assms(2) consider "k = 0" | "k = 1" | "k = 2" by linarith
  then show ?thesis
  proof cases
    case 1
    then show ?thesis unfolding pixelStep_def Let_def r using l by simp
  next
    case 2
    then show ?thesis unfolding pixelStep_def Let_def r using l by simp
  next
    case 3
    then show ?thesis unfolding pixelStep_def Let_def r using l by simp
  qed
qed

lemma applyAttributes_colour:
  assumes "drawn img = data" and "4 dvd j" and "j + 3 < length data" and "k < 3"
  shows "applyAttributes True img adj userMask ! (j + k) =
           ToUint8Clamp (tone adj (num (data ! (j + k))))"
proof -
  have "applyAttributes True img adj userMask ! (j + k) =
        pixelStep adj (getMaskData userMask (width img) (height img)) (targetColor adj data)
          j data ! (j + k)"
    using assms by (simp add: applyAttributes_def Let_def applyLoop_pixel)
  then show ?thesis using assms(3,4) by (simp add: pixelStep_colour)
qed

text \<open>
  The example: with contrast -100 the factor is the double of \<open>8029 / 18309\<close>, and the
  channel value 200 with brightness 100 comes out near 203.43, or near 183.69 when the
  brightness result is clamped first.
\<close>

lemma example_factor:
  "contrastFactor exampleAdjustments = Fin (fl (8029 / 18309))"
  by (simp add: contrastFactor_def exampleAdjustments_def minus_jsnum_def)

lemma example_settings:
  "brightness exampleAdjustments = 100" "gamma exampleAdjustments = 1"
  by (simp_all add: exampleAdjustments_def)

lemma example_contrast:
  assumes "n = 172 \<or> n = (127 :: real)"
  shows "\<bar>fl (fl (fl (8029 / 18309) * n) + 128) - (8029 / 18309 * n + 128)\<bar> < 1 / 1000"
proof -
  define f where "f = fl (8029 / 18309)"
  define p where "p = fl (f * n)"
  have n: "0 \<le> n" "n \<le> 172" using assms by auto
  have 1: "\<bar>f - 8029 / 18309\<bar> \<le> 1 / 1000000000000" unfolding f_def by (rule fl_near) simp
  then have fb: "0 \<le> f" "f \<le> 1" by linarith+
  have "f * n \<le> 1 * 172" using fb n by (intro mult_mono) simp_all
  moreover have "0 \<le> f * n" using fb n by simp
  ultimately have fn: "\<bar>f * n\<bar> \<le> 1024" by simp
  have 2: "\<bar>p - f * n\<bar> \<le> 1 / 1000000000000" unfolding p_def using fn by (rule fl_near)
  have "\<bar>p + 128\<bar> \<le> 1024"
    using 2 \<open>f * n \<le> 1 * 172\<close> \<open>0 \<le> f * n\<close> by linarith
  then have 3: "\<bar>fl (p + 128) - (p + 128)\<bar> \<le> 1 / 1000000000000" by (rule fl_near)
  have e: "f * n - 8029 / 18309 * n = (f - 8029 / 18309) * n"
    by (simp only: left_diff_distrib)
  have "\<bar>f * n - 8029 / 18309 * n\<bar> = \<bar>f - 8029 / 18309\<bar> * n"
    unfolding e abs_mult using n(1) by simp
  also have "\<dots> \<le> 1 / 1000000000000 * 172" using 1 n by (intro mult_mono) simp_all
  finally have 4: "\<bar>f * n - 8029 / 18309 * n\<bar> \<le> 1 / 1000000000000 * 172" .
  have "\<bar>fl (p + 128) - (8029 / 18309 * n + 128)\<bar> \<le> 1 / 1000000000000 * 174"
    using 2 3 4 by linarith
  then show ?thesis unfolding p_def f_def by linarith
qed

lemma example_tone_200:
  "ToUint8Clamp (tone exampleAdjustments (num 200)) = 203"
proof -
  define v where "v = fl (fl (fl (8029 / 18309) * 172) + 128)"
  have "\<bar>v - (8029 / 18309 * 172 + 128)\<bar> < 1 / 1000"
    unfolding v_def by (rule example_contrast) simp
  then have b: "203 < v" "v < 203 + 1 / 2" by linarith+
  have "tone exampleAdjustments (num 200) = Fin v"
    using b
    by (simp add: tone_def Let_def example_factor minus_jsnum_def num_def Math_max_def
          Math_min_def example_settings v_def [symmetric])
  moreover have "ToUint8Clamp (Fin v) = 203"
    using b by (intro ToUint8Clamp_near) simp
  ultimately show ?thesis by simp
qed

lemma example_tone_clamped_200:
  "ToUint8Clamp (toneClampedEachStage exampleAdjustments (num 200)) = 184"
proof -
  define v where "v = fl (fl (fl (8029 / 18309) * 127) + 128)"
  have "\<bar>v - (8029 / 18309 * 127 + 128)\<bar> < 1 / 1000"
    unfolding v_def by (rule example_contrast) simp
  then have b: "183 + 2 / 3 < v" "v < 184" by linarith+
  have "toneClampedEachStage exampleAdjustments (num 200) = Fin v"
    using b
    by (simp add: toneClampedEachStage_def clamp255_def gammaStage_def contrastStage_def
          brightnessStage_def example_factor minus_jsnum_def num_def Math_max_def
          Math_min_def example_settings v_def [symmetric])
  moreover have "ToUint8Clamp (Fin v) = 184"
    using b by (intro ToUint8Clamp_near) simp
  ultimately show ?thesis by simp
qed

text \<open>
  C1, as the code has it. For each of R, G and B the result of the brightness stage
  goes into the contrast stage as it is; the result of the contrast stage is clamped to
  0..255 before the gamma stage, and the result of the gamma stage is clamped to 0..255:
  the value the loop computes is NaN or lies in 0..255, and the byte of the canvas
  returned is the store of that value, for every pixel and every settings value.
\<close>

theorem tone_stages:
  assumes "drawn img = data" and "4 dvd j" and "j + 3 < length data" and "k < 3"
  shows "tone adj c = clamp255 (gammaStage adj (clamp255 (contrastStage adj (brightnessStage adj c))))
    \<and> (tone adj c = NaN \<or> (\<exists>y. tone adj c = Fin y \<and> 0 \<le> y \<and> y \<le> 255))
    \<and> applyAttributes True img adj userMask ! (j + k) =
          ToUint8Clamp (tone adj (num (data ! (j + k))))"
proof -
  have eq: "tone adj c =
      clamp255 (gammaStage adj (clamp255 (contrastStage adj (brightnessStage adj c))))"
  proof (cases "gamma adj = 1")
    case True
    then show ?thesis
      by (simp add: tone_def gammaStage_def contrastStage_def brightnessStage_def
            clamp255_idem Let_def)
         (simp add: clamp255_def)
  next
    case False
    then show ?thesis
      by (simp add: tone_def gammaStage_def contrastStage_def brightnessStage_def Let_def
            clamp255_def)
  qed
  have "tone adj c = NaN \<or> (\<exists>y. tone adj c = Fin y \<and> 0 \<le> y \<and> y \<le> 255)"
    unfolding eq by (rule clamp255_range)
  with eq applyAttributes_colour [OF assms] show ?thesis by blast
qed

theorem tone_stages_witness:
  "applyAttributes True exampleImage exampleAdjustments None ! (0 + 0) = 203"
proof -
  have "applyAttributes True exampleImage exampleAdjustments None ! (0 + 0) =
          ToUint8Clamp (tone exampleAdjustments (num ([200, 10, 20, 255, 0, 0, 0, 200] ! (0 + 0))))"
    by (rule tone_stages [THEN conjunct2, THEN conjunct2]) (simp_all add: example_defs)
  then show ?thesis using example_tone_200 by simp
qed

text \<open>
  C1 as stated fails: with brightness 100, contrast -100 and gamma 1 the channel value
  200 becomes 300 after brightness and the code stores 203, whereas clamping the
  brightness result to 255 before the contrast stage would store 184.
\<close>

theorem tone_not_clamped_each_stage:
  "ToUint8Clamp (tone exampleAdjustments (num 200)) = 203 \<and>
   ToUint8Clamp (toneClampedEachStage exampleAdjustments (num 200)) = 184"
  using example_tone_200 example_tone_clamped_200 by simp

section \<open>The background target in the automatic mode\<close>

text \<open>
  With background removal on and the mode Auto, the target colour of the distance test
  is read from \<^verbatim>\<open>data[0..2]\<close> at lines 193-195, before the loop of line 203 adjusts
  any pixel: it is the RGB of the source pixel at (0,0).
\<close>

lemma targetColor_auto:
  assumes "removeBg adj" and "bgRemoveMode adj = Auto" and "2 < length data"
  shows "targetColor adj data = (num (data ! 0), num (data ! 1), num (data ! 2))"
proof -
  from assms(3) have "0 < length data" "1 < length data" by linarith+
  then show ?thesis using assms by (simp add: targetColor_def rd_def)
qed

text \<open>The squared tolerance at threshold 20 is near \<open>88.4\<^sup>2\<close>.\<close>

lemma example_tolerance:
  "\<exists>t. toleranceSq exampleAutoAdjustments = Fin t \<and> 0 \<le> t \<and> t < 30000"
proof -
  define a where "a = fl (1 / 5)"
  define b where "b = fl (a * 442)"
  have "\<bar>a - 1 / 5\<bar> \<le> 1 / 1000000000000" unfolding a_def by (rule fl_near) simp
  then have a: "0 \<le> a" "a \<le> 21 / 100" by linarith+
  have "a * 442 \<le> 21 / 100 * 442" using a by (intro mult_mono) simp_all
  then have ab: "0 \<le> a * 442" "a * 442 \<le> 93" using a by simp_all
  then have "\<bar>a * 442\<bar> \<le> 1024" by linarith
  then have "\<bar>b - a * 442\<bar> \<le> 1 / 1000000000000" unfolding b_def by (rule fl_near)
  moreover have "0 \<le> b" unfolding b_def using ab(1) by (rule fl_nonneg)
  ultimately have b: "0 \<le> b" "b \<le> 100" using ab(2) by linarith+
  have "b * b \<le> 100 * 100" using b by (intro mult_mono) simp_all
  moreover have b0: "0 \<le> b * b" using b(1) by simp
  moreover have "fl (b * b) \<le> 2 * (b * b)" using b0 by (rule fl_le_twice)
  moreover have "0 \<le> fl (b * b)" using b0 by (rule fl_nonneg)
  ultimately have "0 \<le> fl (b * b)" "fl (b * b) < 30000" by linarith+
  moreover have "toleranceSq exampleAutoAdjustments = Fin (fl (b * b))"
    by (simp add: toleranceSq_def exampleAutoAdjustments_def Let_def a_def b_def)
  ultimately show ?thesis by blast
qed

text \<open>
  C2 does not hold, and the code misses its own aim (\<^verbatim>\<open>Sample the top-left pixel as
  the background color\<close>): the target is sampled from the buffer before the adjustment,
  and the loop compares the adjusted colours with it. On the example image, with
  brightness 100 and threshold 20, the target is the source colour (100, 100, 100) of
  the pixel at (0,0). That pixel is adjusted to (200, 200, 200), at squared distance
  30000 from the target, and keeps its alpha 255; the black pixel is adjusted to
  (100, 100, 100), the target itself, and is erased. With the adjusted pixel at (0,0)
  as the target, as C2 states, the test of lines 255-260 would erase the pixel at (0,0)
  and keep the other.
\<close>

theorem auto_target_keeps_sampled_pixel:
  "removeBg exampleAutoAdjustments \<and> bgRemoveMode exampleAutoAdjustments = Auto \<and>
   targetColor exampleAutoAdjustments (drawn exampleAutoImage) = (Fin 100, Fin 100, Fin 100) \<and>
   tone exampleAutoAdjustments (num (drawn exampleAutoImage ! 0)) = Fin 200 \<and>
   applyAttributes True exampleAutoImage exampleAutoAdjustments None =
     [200, 200, 200, 255, 100, 100, 100, 0] \<and>
   removeAlpha exampleAutoAdjustments None (Fin 200, Fin 200, Fin 200) 0
     (Fin 200) (Fin 200) (Fin 200) (Fin 255) = Fin 0 \<and>
   removeAlpha exampleAutoAdjustments None (Fin 200, Fin 200, Fin 200) 4
     (Fin 100) (Fin 100) (Fin 100) (Fin 255) = Fin 255"
proof -
  obtain t where t: "toleranceSq exampleAutoAdjustments = Fin t" "0 \<le> t" "t < 30000"
    using example_tolerance by blast
  note t' = t(1) [unfolded exampleAutoAdjustments_def]
  have "applyAttributes True exampleAutoImage exampleAutoAdjustments None =
     [200, 200, 200, 255, 100, 100, 100, 0]"
    using t(2,3)
    by (simp add: exampleAutoImage_def exampleAutoAdjustments_def applyAttributes_def
          getMaskData_def targetColor_def applyLoop.simps pixelStep_def rd_def num_def tone_def
          contrastFactor_def Math_max_def Math_min_def minus_jsnum_def roundHalfEven_def
          removeAlpha_def distSq_def t')
  moreover have "targetColor exampleAutoAdjustments (drawn exampleAutoImage) =
      (Fin 100, Fin 100, Fin 100)"
    by (simp add: exampleAutoImage_def exampleAutoAdjustments_def targetColor_def rd_def num_def)
  moreover have "tone exampleAutoAdjustments (num (drawn exampleAutoImage ! 0)) = Fin 200"
    by (simp add: exampleAutoImage_def exampleAutoAdjustments_def num_def tone_def
          contrastFactor_def Math_max_def Math_min_def minus_jsnum_def)
  moreover have "removeAlpha exampleAutoAdjustments None (Fin 200, Fin 200, Fin 200) 0
     (Fin 200) (Fin 200) (Fin 200) (Fin 255) = Fin 0"
    using t(2) by (simp add: removeAlpha_def distSq_def minus_jsnum_def t(1))
       (simp add: exampleAutoAdjustments_def)
  moreover have "removeAlpha exampleAutoAdjustments None (Fin 200, Fin 200, Fin 200) 4
     (Fin 100) (Fin 100) (Fin 100) (Fin 255) = Fin 255"
    using t(3) by (simp add: removeAlpha_def distSq_def minus_jsnum_def t(1))
       (simp add: exampleAutoAdjustments_def)
  ultimately show ?thesis by (simp add: exampleAutoAdjustments_def)
qed

section \<open>Threshold 100 in the distance modes\<close>

















section \<open>The pixel loop of the separators\<close>

lemma forPixels_unchanged:
  assumes inv: "\<And>i st. Inv st \<Longrightarrow> Inv (body i st)"
    and other: "\<And>i st. Inv st \<Longrightarrow> i0 \<le> i \<Longrightarrow> 4 dvd i \<Longrightarrow> sel (body i st) = sel st"
  shows "4 dvd i \<Longrightarrow> i0 \<le> i \<Longrightarrow> Inv st \<Longrightarrow> sel (forPixels body i len st) = sel st"
proof (induction "len - i" arbitrary: i st rule: less_induct)
  case less
  show ?case
  proof (cases "i < len")
    case True
    have "sel (forPixels body i len st) = sel (forPixels body (i + 4) len (body i st))"
      using True by (simp add: forPixels.simps [of body i len st])
    also have "\<dots> = sel (body i st)"
      using True less.prems by (intro less.hyps) (simp_all add: inv)
    also have "\<dots> = sel st"
      using less.prems by (simp add: other)
    finally show ?thesis .
  next
    case False
    then show ?thesis by (simp add: forPixels.simps [of body i len st])
  qed
qed

lemma forPixels_at:
  assumes inv: "\<And>i st. Inv st \<Longrightarrow> Inv (body i st)"
    and other: "\<And>i st. Inv st \<Longrightarrow> 4 dvd i \<Longrightarrow> i \<noteq> j \<Longrightarrow> sel (body i st) = sel st"
    and at: "\<And>st. Inv st \<Longrightarrow> sel (body j st) = v"
  shows "4 dvd i \<Longrightarrow> 4 dvd j \<Longrightarrow> i \<le> j \<Longrightarrow> j < len \<Longrightarrow> Inv st \<Longrightarrow>
         sel (forPixels body i len st) = v"
proof (induction "len - i" arbitrary: i st rule: less_induct)
  case less
  from less.prems have il: "i < len" by simp
  have unf: "forPixels body i len st = forPixels body (i + 4) len (body i st)"
    using il by (simp add: forPixels.simps [of body i len st])
  show ?case
  proof (cases "i = j")
    case True
    have "sel (forPixels body (j + 4) len (body j st)) = sel (body j st)"
    proof (rule forPixels_unchanged [where Inv = Inv and ?i0.0 = "j + 4"])
      show "\<And>i st. Inv st \<Longrightarrow> Inv (body i st)" by (rule inv)
      show "\<And>i st. Inv st \<Longrightarrow> j + 4 \<le> i \<Longrightarrow> 4 dvd i \<Longrightarrow> sel (body i st) = sel st"
        by (rule other) simp_all
      show "4 dvd j + 4" using less.prems(2) by simp
      show "j + 4 \<le> j + 4" by simp
      show "Inv (body j st)" using less.prems(5) by (rule inv)
    qed
    also have "\<dots> = v" using less.prems(5) by (rule at)
    finally have "sel (forPixels body (j + 4) len (body j st)) = v" .
    moreover have "forPixels body j len st = forPixels body (j + 4) len (body j st)"
      using less.prems(4) by (simp add: forPixels.simps [of body j len st])
    ultimately show ?thesis unfolding True by simp
  next
    case False
    with less.prems have ge: "i + 4 \<le> j" by (auto simp: dvd_def)
    have "sel (forPixels body (i + 4) len (body i st)) = v"
      using il less.prems ge by (intro less.hyps) (simp_all add: inv)
    then show ?thesis unfolding unf .
  qed
qed

section \<open>CMYK\<close>

lemma div4_neq: "4 dvd i \<Longrightarrow> 4 dvd j \<Longrightarrow> i \<noteq> j \<Longrightarrow> i div 4 \<noteq> j div (4 :: nat)"
  by (auto simp: dvd_def)

lemma div4_less: "j + 3 < len \<Longrightarrow> j div 4 < len div (4 :: nat)"
  by linarith

lemma cmykBody_shape:
  "cmykBody px i (c, m, y, k) = (c, m, y, k) \<or>
   (\<exists>C M Y K. cmykBody px i (c, m, y, k) =
      (c[i div 4 := C], m[i div 4 := M], y[i div 4 := Y], k[i div 4 := K]))"
proof (cases "rd px (i + 3) / Fin 255 = Fin 0")
  case True
  then show ?thesis by (simp add: cmykBody_def)
next
  case False
  obtain sc sm sy sk where s: "cmykShares px i = (sc, sm, sy, sk)"
    by (cases "cmykShares px i") auto
  have "cmykBody px i (c, m, y, k) =
      (c[i div 4 := ToUint8Clamp (sc * Fin 255 * (rd px (i + 3) / Fin 255))],
       m[i div 4 := ToUint8Clamp (sm * Fin 255 * (rd px (i + 3) / Fin 255))],
       y[i div 4 := ToUint8Clamp (sy * Fin 255 * (rd px (i + 3) / Fin 255))],
       k[i div 4 := ToUint8Clamp (sk * Fin 255 * (rd px (i + 3) / Fin 255))])"
    using False by (simp only: cmykBody_def Let_def prod.case if_False s)
  then show ?thesis by blast
qed

lemma cmykBody_inv: "cmykInv n arrs \<Longrightarrow> cmykInv n (cmykBody px i arrs)"
proof -
  obtain c m y k where a: "arrs = (c, m, y, k)" by (cases arrs) auto
  assume "cmykInv n arrs"
  then show ?thesis
    using cmykBody_shape [of px i c m y k] unfolding a by (auto simp: cmykInv_def)
qed

lemma cmykBody_other:
  assumes "4 dvd i" and "4 dvd j" and "i \<noteq> j"
  shows "cmykAt (j div 4) (cmykBody px i arrs) = cmykAt (j div 4) arrs"
proof -
  obtain c m y k where a: "arrs = (c, m, y, k)" by (cases arrs) auto
  have "i div 4 \<noteq> j div 4" using assms by (rule div4_neq)
  then show ?thesis
    using cmykBody_shape [of px i c m y k] unfolding a by (auto simp: cmykAt_def)
qed

lemma num_numeral: "num 0 = Fin 0" "num 255 = Fin 255"
  by (simp_all add: num_def)

text \<open>
  At a black pixel \<open>r\<close>, \<open>g\<close> and \<open>b\<close> are 0 and \<open>k\<close> is 1: each quotient is
  \<open>0 / 0\<close>, which is NaN, and the guard makes it 0.
\<close>

lemma cmykQuotients_black:
  assumes "j + 2 < length px" and "px ! j = 0" and "px ! (j + 1) = 0" and "px ! (j + 2) = 0"
  shows "cmykQuotients px j = (NaN, NaN, NaN, Fin 1)"
proof -
  from assms(1) have l: "j < length px" "j + 1 < length px" by linarith+
  have r: "rd px j = Fin 0" "rd px (j + 1) = Fin 0" "rd px (j + 2) = Fin 0"
    using assms l by (simp_all add: rd_def num_numeral)
  show ?thesis
    unfolding cmykQuotients_def Let_def r by (simp add: Math_max_def minus_jsnum_def)
qed

lemma cmykShares_black:
  assumes "j + 2 < length px" and "px ! j = 0" and "px ! (j + 1) = 0" and "px ! (j + 2) = 0"
  shows "cmykShares px j = (Fin 0, Fin 0, Fin 0, Fin 1)"
  unfolding cmykShares_def cmykQuotients_black [OF assms] by (simp add: orZero_def)

lemma cmykBody_black:
  assumes "j + 3 < length px" and "px ! j = 0" and "px ! (j + 1) = 0" and "px ! (j + 2) = 0"
    and "px ! (j + 3) = 255" and "cmykInv n arrs" and "j div 4 < n"
  shows "cmykAt (j div 4) (cmykBody px j arrs) = (0, 0, 0, 255)"
proof -
  from assms(1) have l: "j + 2 < length px" by linarith
  have r: "rd px (j + 3) = Fin 255"
    using assms(1,5) by (simp add: rd_def num_numeral)
  obtain c m y k where a: "arrs = (c, m, y, k)" by (cases arrs) auto
  have "cmykBody px j (c, m, y, k) =
        (c[j div 4 := 0], m[j div 4 := 0], y[j div 4 := 0], k[j div 4 := 255])"
    unfolding cmykBody_def Let_def prod.case r cmykShares_black [OF l assms(2-4)]
    by simp
  then show ?thesis
    using assms(6,7) unfolding a by (simp add: cmykAt_def cmykInv_def)
qed

text \<open>
  C5. At every fully opaque black pixel (0, 0, 0, 255) of the composited buffer the
  three quotients of lines 378-380 are \<open>0 / 0\<close>, which is NaN, with \<open>k = 1\<close>; the guard
  \<^verbatim>\<open>|| 0\<close> makes the shares of Cyan, Magenta and Yellow 0 rather than NaN; and the
  densities stored are Cyan 0, Magenta 0, Yellow 0 and Key 255.
\<close>

theorem cmyk_black_pixel:
  assumes "4 dvd j" and "j + 3 < length px"
    and "px ! j = 0" and "px ! (j + 1) = 0" and "px ! (j + 2) = 0" and "px ! (j + 3) = 255"
  shows "cmykQuotients px j = (NaN, NaN, NaN, Fin 1) \<and>
         cmykShares px j = (Fin 0, Fin 0, Fin 0, Fin 1) \<and>
         (case processCMYK px of (cArr, mArr, yArr, kArr) \<Rightarrow>
            cArr ! (j div 4) = 0 \<and> mArr ! (j div 4) = 0 \<and> yArr ! (j div 4) = 0 \<and>
            kArr ! (j div 4) = 255)"
proof -
  let ?n = "length px div 4"
  let ?init = "(replicate ?n 0, replicate ?n 0, replicate ?n 0, replicate ?n (0 :: byte))"
  from assms(2) have l: "j + 2 < length px" by linarith
  have "cmykAt (j div 4) (forPixels (cmykBody px) 0 (length px) ?init) = (0, 0, 0, 255)"
  proof (rule forPixels_at [where Inv = "cmykInv ?n"])
    show "\<And>i st. cmykInv ?n st \<Longrightarrow> cmykInv ?n (cmykBody px i st)" by (rule cmykBody_inv)
    show "\<And>i st. cmykInv ?n st \<Longrightarrow> 4 dvd i \<Longrightarrow> i \<noteq> j \<Longrightarrow>
            cmykAt (j div 4) (cmykBody px i st) = cmykAt (j div 4) st"
      using assms(1) by (simp add: cmykBody_other)
    show "\<And>st. cmykInv ?n st \<Longrightarrow> cmykAt (j div 4) (cmykBody px j st) = (0, 0, 0, 255)"
      using assms div4_less [OF assms(2)] by (intro cmykBody_black) simp_all
    show "4 dvd (0 :: nat)" by simp
    show "4 dvd j" by (rule assms(1))
    show "0 \<le> j" by simp
    show "j < length px" using assms(2) by simp
    show "cmykInv ?n ?init" by (simp add: cmykInv_def)
  qed
  then have "case processCMYK px of (cArr, mArr, yArr, kArr) \<Rightarrow>
            cArr ! (j div 4) = 0 \<and> mArr ! (j div 4) = 0 \<and> yArr ! (j div 4) = 0 \<and>
            kArr ! (j div 4) = 255"
    by (simp add: processCMYK_def Let_def cmykAt_def split: prod.splits)
  with cmykQuotients_black [OF l assms(3-5)] cmykShares_black [OF l assms(3-5)]
  show ?thesis by blast
qed

lemma replicate_2: "replicate 2 x = [x, x]"
  by (simp add: numeral_2_eq_2)

theorem cmyk_black_pixel_witness:
  "cmykQuotients [255, 0, 0, 255, 0, 0, 0, 255] 4 = (NaN, NaN, NaN, Fin 1) \<and>
   cmykShares [255, 0, 0, 255, 0, 0, 0, 255] 4 = (Fin 0, Fin 0, Fin 0, Fin 1) \<and>
   processCMYK [255, 0, 0, 255, 0, 0, 0, 255] = ([0, 0], [255, 0], [255, 0], [0, 255])"
  using cmyk_black_pixel [of 4 "[255, 0, 0, 255, 0, 0, 0, 255]"]
  by (simp add: processCMYK_def forPixels.simps cmykBody_def cmykShares_def cmykQuotients_def
        rd_def num_def Let_def Math_max_def minus_jsnum_def orZero_def roundHalfEven_def
        replicate_2)

section \<open>White underbase\<close>

lemma num_lt_250: "num w < Fin 250 \<longleftrightarrow> unat w < 250"
proof -
  have "real (unat w) < 250 \<longleftrightarrow> unat w < 250"
    using of_nat_less_iff [of "unat w" 250, where 'a = real]
    by (simp del: of_nat_unat of_nat_less_iff)
  then show ?thesis unfolding num_def less_jsnum.simps .
qed

lemma rd_lt_250: "rd px n < Fin 250 \<longleftrightarrow> n < length px \<and> unat (px ! n) < 250"
  by (simp add: rd_def num_lt_250)

lemma hasTransparencyFrom_iff:
  "4 dvd i \<Longrightarrow>
   hasTransparencyFrom px i \<longleftrightarrow> (\<exists>j. i \<le> j \<and> 4 dvd j \<and> j < length px \<and> rd px (j + 3) < Fin 250)"
proof (induction px i rule: hasTransparencyFrom.induct)
  case (1 px i)
  show ?case
  proof (cases "i < length px")
    case False
    then show ?thesis by (auto simp: hasTransparencyFrom.simps [of px i])
  next
    case True
    show ?thesis
    proof (cases "rd px (i + 3) < Fin 250")
      case t: True
      have "hasTransparencyFrom px i" using True t by (simp add: hasTransparencyFrom.simps [of px i])
      moreover have "\<exists>j. i \<le> j \<and> 4 dvd j \<and> j < length px \<and> rd px (j + 3) < Fin 250"
        using True t "1.prems" by blast
      ultimately show ?thesis by simp
    next
      case f: False
      have step: "hasTransparencyFrom px i = hasTransparencyFrom px (i + 4)"
        using True f by (simp add: hasTransparencyFrom.simps [of px i])
      have ih: "hasTransparencyFrom px (i + 4) \<longleftrightarrow>
          (\<exists>j. i + 4 \<le> j \<and> 4 dvd j \<and> j < length px \<and> rd px (j + 3) < Fin 250)"
        using "1.IH" [OF True f] "1.prems" by simp
      have "(\<exists>j. i + 4 \<le> j \<and> 4 dvd j \<and> j < length px \<and> rd px (j + 3) < Fin 250) \<longleftrightarrow>
            (\<exists>j. i \<le> j \<and> 4 dvd j \<and> j < length px \<and> rd px (j + 3) < Fin 250)"
      proof
        assume "\<exists>j. i + 4 \<le> j \<and> 4 dvd j \<and> j < length px \<and> rd px (j + 3) < Fin 250"
        then show "\<exists>j. i \<le> j \<and> 4 dvd j \<and> j < length px \<and> rd px (j + 3) < Fin 250"
          by (meson add_leD1)
      next
        assume "\<exists>j. i \<le> j \<and> 4 dvd j \<and> j < length px \<and> rd px (j + 3) < Fin 250"
        then obtain j where j: "i \<le> j" "4 dvd j" "j < length px" "rd px (j + 3) < Fin 250"
          by blast
        with f have "i \<noteq> j" by auto
        with j(1,2) "1.prems" have "i + 4 \<le> j" by (auto simp: dvd_def)
        with j show "\<exists>j. i + 4 \<le> j \<and> 4 dvd j \<and> j < length px \<and> rd px (j + 3) < Fin 250"
          by blast
      qed
      with step ih show ?thesis by simp
    qed
  qed
qed

lemma hasTransparency_iff:
  "hasTransparencyFrom px 0 \<longleftrightarrow> (\<exists>i. 4 dvd i \<and> i + 3 < length px \<and> unat (px ! (i + 3)) < 250)"
proof -
  have "hasTransparencyFrom px 0 \<longleftrightarrow>
        (\<exists>j. 0 \<le> j \<and> 4 dvd j \<and> j < length px \<and> rd px (j + 3) < Fin 250)"
    by (rule hasTransparencyFrom_iff) simp
  also have "\<dots> \<longleftrightarrow> (\<exists>i. 4 dvd i \<and> i + 3 < length px \<and> unat (px ! (i + 3)) < 250)"
  proof
    assume "\<exists>j. 0 \<le> j \<and> 4 dvd j \<and> j < length px \<and> rd px (j + 3) < Fin 250"
    then obtain j where "4 dvd j" "rd px (j + 3) < Fin 250" by blast
    then have "4 dvd j \<and> j + 3 < length px \<and> unat (px ! (j + 3)) < 250"
      by (simp add: rd_lt_250)
    then show "\<exists>i. 4 dvd i \<and> i + 3 < length px \<and> unat (px ! (i + 3)) < 250" ..
  next
    assume "\<exists>i. 4 dvd i \<and> i + 3 < length px \<and> unat (px ! (i + 3)) < 250"
    then obtain i where i: "4 dvd i" "i + 3 < length px" "unat (px ! (i + 3)) < 250" by blast
    then have "0 \<le> i \<and> 4 dvd i \<and> i < length px \<and> rd px (i + 3) < Fin 250"
      by (simp add: rd_lt_250)
    then show "\<exists>j. 0 \<le> j \<and> 4 dvd j \<and> j < length px \<and> rd px (j + 3) < Fin 250" ..
  qed
  finally show ?thesis .
qed

lemma whiteBaseBody_inv: "length (whiteBaseBody px h i arr) = length arr"
  by (simp add: whiteBaseBody_def Let_def)

lemma whiteBaseBody_other:
  "4 dvd i \<Longrightarrow> 4 dvd j \<Longrightarrow> i \<noteq> j \<Longrightarrow> whiteBaseBody px h i arr ! (j div 4) = arr ! (j div 4)"
  using div4_neq [of i j] by (simp add: whiteBaseBody_def Let_def)

lemma whiteBaseBody_at:
  assumes "j + 3 < length px" and "j div 4 < length arr"
  shows "whiteBaseBody px h j arr ! (j div 4) =
     (if h then px ! (j + 3)
      else ToUint8Clamp (Fin 255 - luma (num (px ! j)) (num (px ! (j + 1))) (num (px ! (j + 2)))))"
proof -
  from assms(1) have l: "j < length px" "j + 1 < length px" "j + 2 < length px" by linarith+
  have r: "rd px j = num (px ! j)" "rd px (j + 1) = num (px ! (j + 1))"
    "rd px (j + 2) = num (px ! (j + 2))" "rd px (j + 3) = num (px ! (j + 3))"
    using assms(1) l by (simp_all add: rd_def)
  show ?thesis
    unfolding whiteBaseBody_def Let_def r using assms(2) by (simp add: ToUint8Clamp_num)
qed

lemma roundHalfEven_bounds:
  assumes "0 \<le> x" and "x \<le> 255"
  shows "0 \<le> roundHalfEven x" and "roundHalfEven x \<le> 255"
proof -
  have n: "\<bar>real_of_int (roundHalfEven x) - x\<bar> \<le> 1 / 2" by (rule roundHalfEven_near)
  have "real_of_int (roundHalfEven x) \<ge> - 1 / 2" using n assms(1) by linarith
  then show "0 \<le> roundHalfEven x" by linarith
  have "real_of_int (roundHalfEven x) \<le> 255 + 1 / 2" using n assms(2) by linarith
  then show "roundHalfEven x \<le> 255" by linarith
qed

lemma unat_word_of_int_byte:
  assumes "0 \<le> k" and "k \<le> 255"
  shows "real (unat (word_of_int k :: byte)) = real_of_int k"
proof -
  have "uint (word_of_int k :: byte) = k"
    using assms by (simp add: uint_word_of_int)
  then have "int (unat (word_of_int k :: byte)) = k" by (simp only: uint_nat [symmetric])
  then show ?thesis by (metis of_int_of_nat_eq)
qed

text \<open>The byte stored for a number between \<open>-1/2\<close> and \<open>255 + 1/2\<close> is within a half of it.\<close>

lemma ToUint8Clamp_nearest:
  assumes "- 1 / 2 \<le> x" and "x \<le> 255 + 1 / 2"
  shows "\<bar>real (unat (ToUint8Clamp (Fin x))) - x\<bar> \<le> 1 / 2"
proof -
  consider "x \<le> 0" | "255 \<le> x" | "0 < x" "x < 255" by linarith
  then show ?thesis
  proof cases
    case 1
    then show ?thesis using assms(1) by simp
  next
    case 2
    then show ?thesis using assms(2) by simp
  next
    case 3
    then have b: "0 \<le> x" "x \<le> 255" by linarith+
    have "real (unat (word_of_int (roundHalfEven x) :: byte)) = real_of_int (roundHalfEven x)"
      using roundHalfEven_bounds [OF b] by (rule unat_word_of_int_byte)
    then show ?thesis
      using 3 roundHalfEven_near [of x] by (simp del: of_nat_unat)
  qed
qed

text \<open>
  The product of the double of a coefficient \<open>k\<close> in 0..1 with a byte, and then
  \<open>255 - luma\<close>, are within \<open>10\<^sup>-\<^sup>6\<close> of the exact values.
\<close>

lemma mult_near:
  assumes "\<bar>c - k\<bar> \<le> 1 / 1000000000000" and "0 \<le> A" and "A \<le> 255" and "0 \<le> k" and "k \<le> 1"
  shows "\<bar>fl (c * A) - k * A\<bar> \<le> 1 / 1000000000"
proof -
  have e: "c * A - k * A = (c - k) * A" by (simp only: left_diff_distrib)
  have "\<bar>c * A - k * A\<bar> = \<bar>c - k\<bar> * A" unfolding e abs_mult using assms(2) by simp
  also have "\<dots> \<le> 1 / 1000000000000 * 255" using assms by (intro mult_mono) simp_all
  finally have 1: "\<bar>c * A - k * A\<bar> \<le> 255 / 1000000000000" by simp
  have "k * A \<le> 1 * 255" using assms by (intro mult_mono) simp_all
  moreover have "0 \<le> k * A" using assms by simp
  ultimately have "\<bar>c * A\<bar> \<le> 1024" using 1 by linarith
  then have "\<bar>fl (c * A) - c * A\<bar> \<le> 1 / 1000000000000" by (rule fl_near)
  with 1 show ?thesis by linarith
qed

lemma luma_num:
  "\<exists>v. Fin 255 - luma (num a) (num b) (num c) = Fin v \<and>
       \<bar>v - (255 - (299 / 1000 * real (unat a) + 587 / 1000 * real (unat b)
                     + 114 / 1000 * real (unat c)))\<bar> \<le> 1 / 1000000"
proof -
  define A where "A = real (unat a)"
  define B where "B = real (unat b)"
  define C where "C = real (unat c)"
  have A: "0 \<le> A" "A \<le> 255" unfolding A_def using byte_lt [of a] by (simp_all del: of_nat_unat)
  have B: "0 \<le> B" "B \<le> 255" unfolding B_def using byte_lt [of b] by (simp_all del: of_nat_unat)
  have C: "0 \<le> C" "C \<le> 255" unfolding C_def using byte_lt [of c] by (simp_all del: of_nat_unat)
  define p1 where "p1 = fl (fl (299 / 1000) * A)"
  define p2 where "p2 = fl (fl (587 / 1000) * B)"
  define p3 where "p3 = fl (fl (114 / 1000) * C)"
  define s1 where "s1 = fl (p1 + p2)"
  define s2 where "s2 = fl (s1 + p3)"
  define v where "v = fl (255 - s2)"
  have 1: "\<bar>p1 - 299 / 1000 * A\<bar> \<le> 1 / 1000000000"
    unfolding p1_def using A by (intro mult_near fl_near) simp_all
  have 2: "\<bar>p2 - 587 / 1000 * B\<bar> \<le> 1 / 1000000000"
    unfolding p2_def using B by (intro mult_near fl_near) simp_all
  have 3: "\<bar>p3 - 114 / 1000 * C\<bar> \<le> 1 / 1000000000"
    unfolding p3_def using C by (intro mult_near fl_near) simp_all
  have "\<bar>p1 + p2\<bar> \<le> 1024" using 1 2 A B by linarith
  then have 4: "\<bar>s1 - (p1 + p2)\<bar> \<le> 1 / 1000000000000" unfolding s1_def by (rule fl_near)
  have "\<bar>s1 + p3\<bar> \<le> 1024" using 1 2 3 4 A B C by linarith
  then have 5: "\<bar>s2 - (s1 + p3)\<bar> \<le> 1 / 1000000000000" unfolding s2_def by (rule fl_near)
  have "\<bar>255 - s2\<bar> \<le> 1024" using 1 2 3 4 5 A B C by linarith
  then have 6: "\<bar>v - (255 - s2)\<bar> \<le> 1 / 1000000000000" unfolding v_def by (rule fl_near)
  have "\<bar>v - (255 - (299 / 1000 * A + 587 / 1000 * B + 114 / 1000 * C))\<bar> \<le> 1 / 1000000"
    using 1 2 3 4 5 6 by linarith
  moreover have "Fin 255 - luma (num a) (num b) (num c) = Fin v"
    by (simp add: luma_def num_def minus_jsnum_def v_def s2_def s1_def p1_def p2_def p3_def
          A_def B_def C_def del: of_nat_unat)
  ultimately show ?thesis unfolding A_def B_def C_def by blast
qed

text \<open>
  A byte within \<open>1/2 + 10\<^sup>-\<^sup>6\<close> of \<open>255 - luma\<close>, which is a multiple of \<open>1/1000\<close>, is
  within \<open>1/2\<close> of it.
\<close>

lemma luma_grid:
  fixes s A B C :: nat
  assumes "\<bar>real s - (255 - (299 / 1000 * real A + 587 / 1000 * real B + 114 / 1000 * real C))\<bar>
             \<le> 1 / 2 + 1 / 1000000"
  shows "\<bar>real s - (255 - (299 / 1000 * real A + 587 / 1000 * real B + 114 / 1000 * real C))\<bar>
             \<le> 1 / 2"
proof -
  define t where
    "t = real s - (255 - (299 / 1000 * real A + 587 / 1000 * real B + 114 / 1000 * real C))"
  define N :: int where "N = 1000 * int s - 255000 + 299 * int A + 587 * int B + 114 * int C"
  have N: "real_of_int N = 1000 * t" by (simp add: N_def t_def)
  have "\<bar>t\<bar> \<le> 1 / 2 + 1 / 1000000" using assms unfolding t_def .
  with N have "\<bar>real_of_int N\<bar> < 501" by linarith
  then have "\<bar>N\<bar> < 501" by linarith
  then have "\<bar>N\<bar> \<le> 500" by linarith
  then have "\<bar>real_of_int N\<bar> \<le> 500" by linarith
  with N have "\<bar>t\<bar> \<le> 1 / 2" by linarith
  then show ?thesis unfolding t_def .
qed

text \<open>
  The opaque pixel (0, 228, 76): the exact \<open>255 - luma\<close> is \<open>112.5\<close>, the doubles give
  \<open>112.5 + 2 / 2 ^ 46\<close>, and the byte stored is 113.
\<close>

lemma example_luma:
  "Fin 255 - luma (Fin 0) (Fin 228) (Fin 76) = Fin (7916483719987202 / 2 ^ 46)"
proof -
  have c2: "fl (587 / 1000) = 5287225962532962 / 2 ^ 53"
    using fl_eval [of "587 / 1000" 53] by (simp add: roundHalfEven_def)
  have c3: "fl (114 / 1000) = 8214565720323785 / 2 ^ 56"
    using fl_eval [of "114 / 1000" 56] by (simp add: roundHalfEven_def)
  have p2: "fl (5287225962532962 / 2 ^ 53 * 228) = 4708935622880919 / 2 ^ 45"
    using fl_eval [of "5287225962532962 / 2 ^ 53 * 228" 45] by (simp add: roundHalfEven_def)
  have p3: "fl (8214565720323785 / 2 ^ 56 * 76) = 4877398396442247 / 2 ^ 49"
    using fl_eval [of "8214565720323785 / 2 ^ 56 * 76" 49] by (simp add: roundHalfEven_def)
  have s1: "fl (4708935622880919 / 2 ^ 45) = 4708935622880919 / 2 ^ 45"
    using fl_dyadic [of 4708935622880919 45] by simp
  have s2: "fl (4708935622880919 / 2 ^ 45 + 4877398396442247 / 2 ^ 49) =
      5013773022658559 / 2 ^ 45"
    using fl_eval [of "4708935622880919 / 2 ^ 45 + 4877398396442247 / 2 ^ 49" 45]
    by (simp add: roundHalfEven_def)
  have v: "fl (255 - 5013773022658559 / 2 ^ 45) = 7916483719987202 / 2 ^ 46"
    using fl_eval [of "255 - 5013773022658559 / 2 ^ 45" 46] by (simp add: roundHalfEven_def)
  have "luma (Fin 0) (Fin 228) (Fin 76) = Fin (5013773022658559 / 2 ^ 45)"
    unfolding luma_def times_jsnum.simps plus_jsnum.simps c2 c3 p2 p3
    by (simp only: mult_zero_right fl_zero add_0 s1 s2)
  then show ?thesis
    unfolding minus_jsnum_def uminus_jsnum.simps plus_jsnum.simps
    using v by simp
qed

text \<open>
  C7. The white underbase decides once, before its pixel loop: \<open>hasTransparency\<close> holds
  exactly when some pixel of the composited buffer has alpha below 250. If so, the
  density of every pixel is its alpha; if not, the density of every pixel is 255 minus
  its luma \<open>0.299 R + 0.587 G + 0.114 B\<close> as the code computes it in doubles, stored as
  a byte; that byte is within \<open>1/2\<close> of the exact \<open>255 - luma\<close>, and where the exact
  value lies halfway between two integers the rounding of the doubles decides which of
  the two is stored.
\<close>

theorem white_base_global_decision:
  assumes "4 dvd j" and "j + 3 < length px"
  shows "(hasTransparencyFrom px 0 \<longleftrightarrow>
            (\<exists>i. 4 dvd i \<and> i + 3 < length px \<and> unat (px ! (i + 3)) < 250)) \<and>
         processWhiteBase px ! (j div 4) =
           (if \<exists>i. 4 dvd i \<and> i + 3 < length px \<and> unat (px ! (i + 3)) < 250
            then px ! (j + 3)
            else ToUint8Clamp
                   (Fin 255 - luma (num (px ! j)) (num (px ! (j + 1))) (num (px ! (j + 2))))) \<and>
         \<bar>real (unat (ToUint8Clamp
                  (Fin 255 - luma (num (px ! j)) (num (px ! (j + 1))) (num (px ! (j + 2))))))
           - (255 - (299 / 1000 * real (unat (px ! j)) + 587 / 1000 * real (unat (px ! (j + 1)))
                     + 114 / 1000 * real (unat (px ! (j + 2)))))\<bar> \<le> 1 / 2"
proof -
  let ?n = "length px div 4"
  let ?h = "hasTransparencyFrom px 0"
  let ?v = "if ?h then px ! (j + 3)
      else ToUint8Clamp (Fin 255 - luma (num (px ! j)) (num (px ! (j + 1))) (num (px ! (j + 2))))"
  let ?exact = "255 - (299 / 1000 * real (unat (px ! j)) + 587 / 1000 * real (unat (px ! (j + 1)))
                     + 114 / 1000 * real (unat (px ! (j + 2))))"
  have "forPixels (whiteBaseBody px ?h) 0 (length px) (replicate ?n 0) ! (j div 4) = ?v"
  proof (rule forPixels_at [where Inv = "\<lambda>arr. length arr = ?n" and sel = "\<lambda>arr. arr ! (j div 4)"])
    show "\<And>i st. length st = ?n \<Longrightarrow> length (whiteBaseBody px ?h i st) = ?n"
      by (simp add: whiteBaseBody_inv)
    show "\<And>i st. length st = ?n \<Longrightarrow> 4 dvd i \<Longrightarrow> i \<noteq> j \<Longrightarrow>
            whiteBaseBody px ?h i st ! (j div 4) = st ! (j div 4)"
      using assms(1) by (simp add: whiteBaseBody_other)
    show "\<And>st. length st = ?n \<Longrightarrow> whiteBaseBody px ?h j st ! (j div 4) = ?v"
      using assms(2) div4_less [OF assms(2)] by (simp add: whiteBaseBody_at)
    show "4 dvd (0 :: nat)" by simp
    show "4 dvd j" by (rule assms(1))
    show "0 \<le> j" by simp
    show "j < length px" using assms(2) by simp
    show "length (replicate ?n (0 :: byte)) = ?n" by simp
  qed
  then have "processWhiteBase px ! (j div 4) = ?v"
    by (simp add: processWhiteBase_def Let_def)
  then have d: "processWhiteBase px ! (j div 4) =
           (if \<exists>i. 4 dvd i \<and> i + 3 < length px \<and> unat (px ! (i + 3)) < 250
            then px ! (j + 3)
            else ToUint8Clamp
                   (Fin 255 - luma (num (px ! j)) (num (px ! (j + 1))) (num (px ! (j + 2)))))"
    unfolding hasTransparency_iff .
  obtain v where v: "Fin 255 - luma (num (px ! j)) (num (px ! (j + 1))) (num (px ! (j + 2))) = Fin v"
    "\<bar>v - ?exact\<bar> \<le> 1 / 1000000"
    using luma_num [of "px ! j" "px ! (j + 1)" "px ! (j + 2)"] by blast
  have "real (unat (px ! j)) \<le> 255" "real (unat (px ! (j + 1))) \<le> 255"
    "real (unat (px ! (j + 2))) \<le> 255"
    using byte_lt [of "px ! j"] byte_lt [of "px ! (j + 1)"] byte_lt [of "px ! (j + 2)"]
    by (simp_all del: of_nat_unat)
  moreover have "0 \<le> real (unat (px ! j))" "0 \<le> real (unat (px ! (j + 1)))"
    "0 \<le> real (unat (px ! (j + 2)))"
    by (simp_all del: of_nat_unat)
  ultimately have e: "0 \<le> ?exact" "?exact \<le> 255" by linarith+
  have "\<bar>real (unat (ToUint8Clamp (Fin v))) - v\<bar> \<le> 1 / 2"
    using v(2) e by (intro ToUint8Clamp_nearest) linarith+
  with v(2) have "\<bar>real (unat (ToUint8Clamp (Fin v))) - ?exact\<bar> \<le> 1 / 2 + 1 / 1000000"
    by linarith
  then have n: "\<bar>real (unat (ToUint8Clamp (Fin v))) - ?exact\<bar> \<le> 1 / 2"
    by (rule luma_grid)
  show ?thesis
    using hasTransparency_iff [of px] d n unfolding v(1) by blast
qed

theorem white_base_global_decision_witness:
  "processWhiteBase [255, 0, 0, 255, 0, 0, 0, 200] ! (4 div 4) = 200 \<and>
   processWhiteBase [0, 228, 76, 255] ! (0 div 4) = 113"
proof -
  have m: "\<not> 4 dvd Suc (Suc (Suc 0))" by presburger
  have a: "\<exists>i. 4 dvd i \<and> i + 3 < length [255, 0, 0, 255, 0, 0, 0, 200 :: byte] \<and>
               unat ([255, 0, 0, 255, 0, 0, 0, 200 :: byte] ! (i + 3)) < 250"
    by (rule exI [of _ 4]) simp
  have b: "\<not> (\<exists>i. 4 dvd i \<and> i + 3 < length [0, 228, 76, 255 :: byte] \<and>
               unat ([0, 228, 76, 255 :: byte] ! (i + 3)) < 250)"
    by simp
  have "(7916483719987202 :: real) / 2 ^ 46 - 113 < 1 / 2"
    "- (1 / 2) < (7916483719987202 :: real) / 2 ^ 46 - 113" by simp_all
  then have c: "ToUint8Clamp (Fin (7916483719987202 / 2 ^ 46)) = 113"
    by (intro ToUint8Clamp_near) (simp add: abs_less_iff)
  have "processWhiteBase [255, 0, 0, 255, 0, 0, 0, 200] ! (4 div 4) = 200"
    using white_base_global_decision [of 4 "[255, 0, 0, 255, 0, 0, 0, 200]"] a by simp
  moreover have "processWhiteBase [0, 228, 76, 255] ! (0 div 4) = 113"
  proof -
    have n: "num (0 :: byte) = Fin 0" "num (228 :: byte) = Fin 228" "num (76 :: byte) = Fin 76"
      by (simp_all add: num_def)
    have "processWhiteBase [0, 228, 76, 255] ! (0 div 4) =
        ToUint8Clamp (Fin 255 - luma (num 0) (num 228) (num 76))"
      using white_base_global_decision [of 0 "[0, 228, 76, 255]"] b by simp
    then show ?thesis unfolding n example_luma c .
  qed
  ultimately show ?thesis by simp
qed

section \<open>Spot colours\<close>

lemma spotForEach_length: "length (spotForEach ts k i r g b al chs) = length chs"
  by (induction ts arbitrary: k chs) simp_all

lemma spotForEach_nth:
  "m < length chs \<Longrightarrow>
   spotForEach ts k i r g b al chs ! m =
     (if k \<le> m \<and> m < k + length ts
      then (chs ! m)[i div 4 := ToUint8Clamp (similarity (ts ! (m - k)) r g b * Fin 255 * al)]
      else chs ! m)"
proof (induction ts arbitrary: k chs)
  case Nil
  then show ?case by auto
next
  case (Cons t ts)
  let ?v = "\<lambda>t. ToUint8Clamp (similarity t r g b * Fin 255 * al)"
  let ?chs' = "chs[k := (chs ! k)[i div 4 := ?v t]]"
  have m': "m < length ?chs'" using Cons.prems by simp
  have ih: "spotForEach ts (k + 1) i r g b al ?chs' ! m =
     (if k + 1 \<le> m \<and> m < k + 1 + length ts
      then (?chs' ! m)[i div 4 := ?v (ts ! (m - (k + 1)))]
      else ?chs' ! m)"
    by (rule Cons.IH [OF m'])
  show ?case
  proof (cases "m = k")
    case True
    have "spotForEach ts (k + 1) i r g b al ?chs' ! k = (chs ! k)[i div 4 := ?v t]"
      using ih Cons.prems unfolding True by simp
    then show ?thesis unfolding True by simp
  next
    case False
    show ?thesis
    proof (cases "k + 1 \<le> m \<and> m < k + 1 + length ts")
      case t: True
      then have "(t # ts) ! (m - k) = ts ! (m - (k + 1))" by (simp add: nth_Cons')
      then show ?thesis using ih t False by simp
    next
      case f: False
      with False have "\<not> (k \<le> m \<and> m < k + length (t # ts))" by auto
      then show ?thesis using ih f False by auto
    qed
  qed
qed

lemma spotBody_inv:
  assumes "spotInv (length targets) n chs"
  shows "spotInv (length targets) n (spotBody targets px i chs)"
proof -
  have "length (spotForEach targets 0 i r g b al chs ! m) = n" if "m < length chs" for m r g b al
    using that assms by (simp add: spotForEach_nth spotInv_def)
  then have "\<forall>ch \<in> set (spotForEach targets 0 i r g b al chs). length ch = n" for r g b al
    by (auto simp: in_set_conv_nth spotForEach_length)
  then show ?thesis
    using assms by (simp add: spotBody_def Let_def spotInv_def spotForEach_length)
qed

lemma spotBody_other:
  assumes "4 dvd i" and "4 dvd j" and "i \<noteq> j" and "idx < length chs"
  shows "spotBody targets px i chs ! idx ! (j div 4) = chs ! idx ! (j div 4)"
proof -
  have "i div 4 \<noteq> j div 4" using assms(1-3) by (rule div4_neq)
  then show ?thesis
    using assms(4) by (simp add: spotBody_def Let_def spotForEach_nth)
qed

lemma spotBody_at:
  assumes "rd px (j + 3) / Fin 255 \<noteq> Fin 0" and "idx < length targets"
    and "spotInv (length targets) n chs" and "j div 4 < n"
  shows "spotBody targets px j chs ! idx ! (j div 4) =
     ToUint8Clamp (similarity (targets ! idx) (rd px j) (rd px (j + 1)) (rd px (j + 2))
                   * Fin 255 * (rd px (j + 3) / Fin 255))"
proof -
  have "idx < length chs" "length (chs ! idx) = n"
    using assms(2,3) by (simp_all add: spotInv_def)
  then show ?thesis
    using assms(1,2,4) by (simp add: spotBody_def Let_def spotForEach_nth)
qed

lemma is_whole_numeral: "is_whole 2" "is_whole 3"
  by (simp_all add: is_whole_def)

lemma similarity_exact:
  "similarity (Fin x, Fin y, Fin z, sc) (Fin x) (Fin y) (Fin z) = Fin 1"
proof -
  have d: "Math_sqrt (Math_pow (Fin x - Fin x) (Fin 2) + Math_pow (Fin y - Fin y) (Fin 2)
             + Math_pow (Fin z - Fin z) (Fin 2)) = Fin 0"
    by (simp add: minus_jsnum_def Math_pow.simps)
  have q: "Fin 0 / (Fin 442 / (Fin 1 + Fin (threshold sc) / Fin 20)) = Fin 0"
    by simp
  have p: "Math_pow (Fin 1) (Fin 3) = Fin 1"
    by (simp add: Math_pow.simps is_whole_numeral)
  show ?thesis
    unfolding similarity_def prod.case Let_def d q by (simp add: minus_jsnum_def p)
qed

lemma num_alpha: "w \<noteq> 0 \<Longrightarrow> num w / Fin 255 \<noteq> Fin 0"
  by (simp add: num_def unat_eq_0 del: of_nat_unat)

text \<open>255 times the normalised alpha, computed in doubles, is stored as the alpha byte.\<close>

lemma alpha_roundtrip: "ToUint8Clamp (Fin 255 * (num w / Fin 255)) = w"
proof -
  define W where "W = real (unat w)"
  define q where "q = fl (W / 255)"
  have W: "0 \<le> W" "W \<le> 255" unfolding W_def using byte_lt [of w] by (simp_all del: of_nat_unat)
  then have "\<bar>W / 255\<bar> \<le> 1024" by simp
  then have 1: "\<bar>q - W / 255\<bar> \<le> 1 / 1000000000000" unfolding q_def by (rule fl_near)
  then have "\<bar>255 * q - W\<bar> \<le> 255 / 1000000000000" by linarith
  moreover from this W have "\<bar>255 * q\<bar> \<le> 1024" by linarith
  then have "\<bar>fl (255 * q) - 255 * q\<bar> \<le> 1 / 1000000000000" by (rule fl_near)
  ultimately have "\<bar>fl (255 * q) - W\<bar> < 1 / 2" by linarith
  then have "ToUint8Clamp (Fin (fl (255 * q))) = w" unfolding W_def by (rule ToUint8Clamp_near)
  then show ?thesis by (simp add: num_def q_def W_def del: of_nat_unat)
qed

text \<open>
  C6. For every configured spot colour and every pixel with alpha above 0 whose RGB in
  the composited buffer equals the parsed RGB of the target, the similarity is 1
  whatever the threshold of the target, and the density stored for the pixel is 255
  times its normalised alpha, which is the alpha byte itself.
\<close>

theorem spot_exact_match:
  assumes "idx < length spotColors" and "4 dvd j" and "j + 3 < length px"
    and "px ! (j + 3) \<noteq> 0"
    and "parseInt16 (sliceStr (color (spotColors ! idx)) 1 3) = num (px ! j)"
    and "parseInt16 (sliceStr (color (spotColors ! idx)) 3 5) = num (px ! (j + 1))"
    and "parseInt16 (sliceStr (color (spotColors ! idx)) 5 7) = num (px ! (j + 2))"
  shows "similarity (toTarget (spotColors ! idx))
           (num (px ! j)) (num (px ! (j + 1))) (num (px ! (j + 2))) = Fin 1 \<and>
         processSpotColors px spotColors ! idx ! (j div 4) =
           ToUint8Clamp (Fin 255 * (num (px ! (j + 3)) / Fin 255)) \<and>
         processSpotColors px spotColors ! idx ! (j div 4) = px ! (j + 3)"
proof -
  let ?targets = "map toTarget spotColors"
  let ?n = "length px div 4"
  let ?init = "map (\<lambda>_. replicate ?n (0 :: byte)) ?targets"
  from assms(3) have l: "j < length px" "j + 1 < length px" "j + 2 < length px" by linarith+
  have r: "rd px j = num (px ! j)" "rd px (j + 1) = num (px ! (j + 1))"
    "rd px (j + 2) = num (px ! (j + 2))" "rd px (j + 3) = num (px ! (j + 3))"
    using assms(3) l by (simp_all add: rd_def)
  obtain x y z where n: "num (px ! j) = Fin x" "num (px ! (j + 1)) = Fin y"
    "num (px ! (j + 2)) = Fin z"
    by (simp add: num_def)
  have tg: "toTarget (spotColors ! idx) = (Fin x, Fin y, Fin z, spotColors ! idx)"
    by (simp only: toTarget_def assms(5-7) n)
  have sim: "similarity (toTarget (spotColors ! idx))
           (num (px ! j)) (num (px ! (j + 1))) (num (px ! (j + 2))) = Fin 1"
    unfolding tg n by (rule similarity_exact)
  have "forPixels (spotBody ?targets px) 0 (length px) ?init ! idx ! (j div 4) =
        ToUint8Clamp (similarity (?targets ! idx) (num (px ! j)) (num (px ! (j + 1)))
                            (num (px ! (j + 2)))
                   * Fin 255 * (num (px ! (j + 3)) / Fin 255))"
  proof (rule forPixels_at [where Inv = "spotInv (length ?targets) ?n"
                              and sel = "\<lambda>chs. chs ! idx ! (j div 4)"])
    show "\<And>i st. spotInv (length ?targets) ?n st \<Longrightarrow>
            spotInv (length ?targets) ?n (spotBody ?targets px i st)"
      by (rule spotBody_inv)
    show "\<And>i st. spotInv (length ?targets) ?n st \<Longrightarrow> 4 dvd i \<Longrightarrow> i \<noteq> j \<Longrightarrow>
            spotBody ?targets px i st ! idx ! (j div 4) = st ! idx ! (j div 4)"
      using assms(1,2) by (intro spotBody_other) (simp_all add: spotInv_def)
    show "\<And>st. spotInv (length ?targets) ?n st \<Longrightarrow>
            spotBody ?targets px j st ! idx ! (j div 4) =
            ToUint8Clamp (similarity (?targets ! idx) (num (px ! j)) (num (px ! (j + 1)))
                            (num (px ! (j + 2)))
                   * Fin 255 * (num (px ! (j + 3)) / Fin 255))"
    proof -
      fix st assume inv: "spotInv (length ?targets) ?n st"
      have a: "rd px (j + 3) / Fin 255 \<noteq> Fin 0" unfolding r using assms(4) by (rule num_alpha)
      have i: "idx < length ?targets" using assms(1) by simp
      show "spotBody ?targets px j st ! idx ! (j div 4) =
            ToUint8Clamp (similarity (?targets ! idx) (num (px ! j)) (num (px ! (j + 1)))
                            (num (px ! (j + 2)))
                   * Fin 255 * (num (px ! (j + 3)) / Fin 255))"
        using spotBody_at [OF a i inv div4_less [OF assms(3)]] unfolding r .
    qed
    show "4 dvd (0 :: nat)" by simp
    show "4 dvd j" by (rule assms(2))
    show "0 \<le> j" by simp
    show "j < length px" using assms(3) by simp
    show "spotInv (length ?targets) ?n ?init" by (simp add: spotInv_def)
  qed
  then have "processSpotColors px spotColors ! idx ! (j div 4) =
        ToUint8Clamp (Fin 1 * Fin 255 * (num (px ! (j + 3)) / Fin 255))"
    using assms(1) sim by (simp add: processSpotColors_def Let_def)
  moreover have "Fin 1 * Fin 255 = Fin 255" by simp
  ultimately have d: "processSpotColors px spotColors ! idx ! (j div 4) =
        ToUint8Clamp (Fin 255 * (num (px ! (j + 3)) / Fin 255))" by simp
  have "processSpotColors px spotColors ! idx ! (j div 4) = px ! (j + 3)"
    unfolding d by (rule alpha_roundtrip)
  with sim d show ?thesis by simp
qed

theorem spot_exact_match_witness:
  "processSpotColors [0, 0, 0, 0, 255, 136, 0, 128] [exampleSpot] ! 0 ! (4 div 4) = 128"
  using spot_exact_match [of 0 "[exampleSpot]" 4 "[0, 0, 0, 0, 255, 136, 0, 128]",
      THEN conjunct2, THEN conjunct2]
  by (simp add: exampleSpot_def parseInt16_def sliceStr_def isWhiteSpace_def hexDigitValue_def
        hexValue_def num_def)

section \<open>Dominant colours\<close>

subsection \<open>The hex key of a quantised colour parses back to its channels\<close>













subsection \<open>The histogram holds the frequencies\<close>












lemma two_digits_value: "16 * (R div 16) + R mod 16 = (R :: nat)"
  by simp





subsection \<open>The selection loop\<close>






subsection \<open>The sorted keys\<close>



subsection \<open>The result\<close>













end
